theory Spec2Isabelle
  imports Main "HOL-Library.Sublist"
begin

section \<open>Strings, numbers and errors\<close>

text \<open>
  Strings are lists of characters. The texts handled by the parsers are ASCII; on ASCII
  letters \<open>toUpperCase\<close> maps \<open>a..z\<close> to \<open>A..Z\<close> and leaves every other character alone.
  Characters outside ASCII are left unchanged by the model.
\<close>

definition lowerLetters :: string where
  "lowerLetters = ''abcdefghijklmnopqrstuvwxyz''"

definition upperLetters :: string where
  "upperLetters = ''ABCDEFGHIJKLMNOPQRSTUVWXYZ''"

definition toUpperChar :: "char \<Rightarrow> char" where
  "toUpperChar c = (case map_of (zip lowerLetters upperLetters) c of None \<Rightarrow> c | Some u \<Rightarrow> u)"

definition toUpperCase :: "string \<Rightarrow> string" where
  "toUpperCase s = map toUpperChar s"

definition isDigit :: "char \<Rightarrow> bool" where
  "isDigit c = (c \<in> set ''0123456789'')"

text \<open>The class \<open>\w\<close> of a regular expression without the unicode flag: \<open>[A-Za-z0-9_]\<close>.\<close>

definition isWord :: "char \<Rightarrow> bool" where
  "isWord c = (c \<in> set lowerLetters \<or> c \<in> set upperLetters \<or> isDigit c \<or> c = CHR ''_'')"

text \<open>White space removed by \<open>trim\<close>: tab, line feed, vertical tab, form feed, carriage
  return and space.\<close>

definition isSpace :: "char \<Rightarrow> bool" where
  "isSpace c = (c \<in> {CHR 0x09, CHR 0x0A, CHR 0x0B, CHR 0x0C, CHR 0x0D, CHR '' ''})"

definition trim :: "string \<Rightarrow> string" where
  "trim s = rev (dropWhile isSpace (rev (dropWhile isSpace s)))"

text \<open>\<open>s.split(c)\<close> for a one-character separator; the result is never empty
  (\<open>"".split(c)\<close> is \<open>[""]\<close>).\<close>

fun split :: "char \<Rightarrow> string \<Rightarrow> string list" where
  "split c [] = [[]]"
| "split c (x # xs) =
     (if x = c then [] # split c xs
      else (case split c xs of [] \<Rightarrow> [[x]] | y # ys \<Rightarrow> (x # y) # ys))"

text \<open>Array destructuring \<open>const [a, b] = xs\<close>: a missing position is \<open>undefined\<close>.\<close>

fun at :: "'a list \<Rightarrow> nat \<Rightarrow> 'a option" where
  "at [] n = None"
| "at (x # xs) 0 = Some x"
| "at (x # xs) (Suc n) = at xs n"

text \<open>\<open>s.padStart(2, '0')\<close>.\<close>

definition padStart2 :: "string \<Rightarrow> string" where
  "padStart2 s = replicate (2 - length s) (CHR ''0'') @ s"

text \<open>\<open>s.slice(i, j)\<close> for \<open>0 \<le> i \<le> j\<close>.\<close>

definition slice :: "string \<Rightarrow> nat \<Rightarrow> nat \<Rightarrow> string" where
  "slice s i j = take (j - i) (drop i s)"

definition digitChar :: "nat \<Rightarrow> char" where
  "digitChar n = (''0123456789'' ! (n mod 10))"

fun showNat :: "nat \<Rightarrow> string" where
  "showNat n = (if n < 10 then [digitChar n] else showNat (n div 10) @ [digitChar n])"

definition showInt :: "int \<Rightarrow> string" where
  "showInt i = (if i < 0 then CHR ''-'' # showNat (nat (- i)) else showNat (nat i))"

text \<open>
  The reference year is the result of \<open>getUTCFullYear()\<close>: an integer, or \<open>NaN\<close> when
  the timestamp is not a date.
\<close>

datatype number = Num int | NaN

fun numberToString :: "number \<Rightarrow> string" where
  "numberToString (Num i) = showInt i"
| "numberToString NaN = ''NaN''"

text \<open>
  Every \<open>throw\<close> of the source is a value. \<open>TypeError\<close> is the runtime's error for a
  method call on \<open>undefined\<close>; \<open>External\<close> stands for a failure of the network or of the
  store.
\<close>

datatype error =
    InvalidMonth string
  | TypeError
  | InvalidDatePart string
  | FailedDatePart string error
  | FailedTimePart string error
  | ConfigError
  | External string

section \<open>Month lookup\<close>

definition monthMap :: "(string \<times> nat) list" where
  "monthMap =
     [(''JAN'', 1), (''FEB'', 2), (''MAR'', 3), (''APR'', 4), (''MAY'', 5), (''JUN'', 6),
      (''JUL'', 7), (''AUG'', 8), (''SEP'', 9), (''OCT'', 10), (''NOV'', 11), (''DEC'', 12)]"

text \<open>\<open>!month\<close> holds for a missing key and for the number 0.\<close>

definition getMonth :: "string \<Rightarrow> error + nat" where
  "getMonth abbrev =
     (case map_of monthMap (toUpperCase abbrev) of
        None \<Rightarrow> Inl (InvalidMonth abbrev)
      | Some month \<Rightarrow> if month = 0 then Inl (InvalidMonth abbrev) else Inr month)"

text \<open>A call \<open>getMonth(mon)\<close> where \<open>mon\<close> may be \<open>undefined\<close>.\<close>

definition getMonthOpt :: "string option \<Rightarrow> error + nat" where
  "getMonthOpt mon = (case mon of None \<Rightarrow> Inl TypeError | Some abbrev \<Rightarrow> getMonth abbrev)"

section \<open>Date-range and time-range parsers\<close>

text \<open>The template \<open>`${year}-${String(getMonth(mon)).padStart(2, '0')}-${day.padStart(2, '0')}`\<close>:
  the month is looked up before the day is padded.\<close>

definition dateString :: "number \<Rightarrow> string option \<Rightarrow> string option \<Rightarrow> error + string" where
  "dateString year mon day =
     (case getMonthOpt mon of
        Inl e \<Rightarrow> Inl e
      | Inr month \<Rightarrow>
          (case day of
             None \<Rightarrow> Inl TypeError
           | Some d \<Rightarrow>
               Inr (numberToString year @ ''-'' @ padStart2 (showNat month) @ ''-'' @ padStart2 d)))"

definition parseDateSides :: "string \<Rightarrow> string \<Rightarrow> number \<Rightarrow> error + (string \<times> string)" where
  "parseDateSides first second year =
     (if CHR '' '' \<in> set first then
        (let a = split (CHR '' '') first; b = split (CHR '' '') second in
         case dateString year (at a 1) (at a 0) of
           Inl e \<Rightarrow> Inl e
         | Inr startDate \<Rightarrow>
             (case dateString year (at b 1) (at b 0) of
                Inl e \<Rightarrow> Inl e
              | Inr endDate \<Rightarrow> Inr (startDate, endDate)))
      else
        (let b = split (CHR '' '') second in
         case getMonthOpt (at b 1) of
           Inl e \<Rightarrow> Inl e
         | Inr month \<Rightarrow>
             (case at b 0 of
                None \<Rightarrow> Inl TypeError
              | Some day2 \<Rightarrow>
                  Inr (numberToString year @ ''-'' @ padStart2 (showNat month) @ ''-'' @ padStart2 first,
                       numberToString year @ ''-'' @ padStart2 (showNat month) @ ''-'' @ padStart2 day2))))"

definition parseDatePart :: "string \<Rightarrow> number \<Rightarrow> error + (string \<times> string)" where
  "parseDatePart datePart year =
     (case map trim (split (CHR ''/'') datePart) of
        [first, second] \<Rightarrow>
          (case parseDateSides first second year of
             Inl e \<Rightarrow> Inl (FailedDatePart datePart e)
           | Inr r \<Rightarrow> Inr r)
      | _ \<Rightarrow> Inl (InvalidDatePart datePart))"

definition timeString :: "string option \<Rightarrow> error + string" where
  "timeString side =
     (case side of
        None \<Rightarrow> Inl TypeError
      | Some t \<Rightarrow> Inr (slice t 0 2 @ '':'' @ slice t 2 4 @ '':00Z''))"

definition parseTimePart :: "string \<Rightarrow> error + (string \<times> string)" where
  "parseTimePart timePart =
     (let sides = split (CHR ''-'') timePart in
      case timeString (at sides 0) of
        Inl e \<Rightarrow> Inl (FailedTimePart timePart e)
      | Inr startTime \<Rightarrow>
          (case timeString (at sides 1) of
             Inl e \<Rightarrow> Inl (FailedTimePart timePart e)
           | Inr endTime \<Rightarrow> Inr (startTime, endTime)))"

section \<open>Regular expressions\<close>

text \<open>
  The two regular expressions of the source are built from literals, the classes \<open>\d\<close>
  and \<open>\w\<close> under \<open>+\<close> and \<open>{n}\<close>, sequence, alternation, \<open>?\<close> and capturing groups.
  \<open>matches\<close> is the backtracking matcher: it lists every way the expression matches a
  prefix of the text, in the order in which backtracking tries them (greedy repetition
  first, the left alternative first), each with the captured groups and the rest of the
  text. The flag is the \<open>i\<close> flag.
\<close>

datatype cclass = DigitC | WordC

fun inClass :: "cclass \<Rightarrow> char \<Rightarrow> bool" where
  "inClass DigitC c = isDigit c"
| "inClass WordC c = isWord c"

datatype regex =
    Lit string
  | Plus cclass
  | Rep nat cclass
  | Seq regex regex
  | Alt regex regex
  | Opt regex
  | Group regex

fun litMatch :: "bool \<Rightarrow> string \<Rightarrow> string \<Rightarrow> string option" where
  "litMatch ic [] s = Some s"
| "litMatch ic (p # ps) [] = None"
| "litMatch ic (p # ps) (x # xs) =
     (if (if ic then toUpperChar p = toUpperChar x else p = x) then litMatch ic ps xs else None)"

fun matches :: "bool \<Rightarrow> regex \<Rightarrow> string \<Rightarrow> (string list \<times> string) list" where
  "matches ic (Lit l) s = (case litMatch ic l s of None \<Rightarrow> [] | Some rest \<Rightarrow> [([], rest)])"
| "matches ic (Plus cl) s =
     map (\<lambda>k. ([], drop k s)) (rev [1 ..< Suc (length (takeWhile (inClass cl) s))])"
| "matches ic (Rep n cl) s =
     (if n \<le> length (takeWhile (inClass cl) s) then [([], drop n s)] else [])"
| "matches ic (Seq a b) s =
     concat (map (\<lambda>(c1, r1). map (\<lambda>(c2, r2). (c1 @ c2, r2)) (matches ic b r1)) (matches ic a s))"
| "matches ic (Alt a b) s = matches ic a s @ matches ic b s"
| "matches ic (Opt a) s = matches ic a s @ [([], s)]"
| "matches ic (Group a) s =
     map (\<lambda>(c, r). (take (length s - length r) s # c, r)) (matches ic a s)"

text \<open>
  \<open>exec\<close> finds the leftmost position at which the expression matches and returns the
  matched text, the captured groups and the text after the match (where the next call
  of a global expression resumes); \<open>None\<close> is the source's \<open>null\<close>.
\<close>

fun exec :: "bool \<Rightarrow> regex \<Rightarrow> string \<Rightarrow> (string \<times> string list \<times> string) option" where
  "exec ic r [] =
     (case matches ic r [] of [] \<Rightarrow> None | (caps, rest) # _ \<Rightarrow> Some ([], caps, rest))"
| "exec ic r (x # xs) =
     (case matches ic r (x # xs) of
        [] \<Rightarrow> exec ic r xs
      | (caps, rest) # _ \<Rightarrow> Some (take (length (x # xs) - length rest) (x # xs), caps, rest))"

definition test :: "bool \<Rightarrow> regex \<Rightarrow> string \<Rightarrow> bool" where
  "test ic r s = (exec ic r s \<noteq> None)"

fun seqs :: "regex list \<Rightarrow> regex" where
  "seqs [] = Lit []"
| "seqs [r] = r"
| "seqs (r # rs) = Seq r (seqs rs)"

text \<open>The least number of characters a match consumes.\<close>

fun minLen :: "regex \<Rightarrow> nat" where
  "minLen (Lit l) = length l"
| "minLen (Plus cl) = 1"
| "minLen (Rep n cl) = n"
| "minLen (Seq a b) = minLen a + minLen b"
| "minLen (Alt a b) = min (minLen a) (minLen b)"
| "minLen (Opt a) = 0"
| "minLen (Group a) = minLen a"

section \<open>Detail extractor\<close>

record ParsedDetail =
  type :: string
  startDate :: string
  endDate :: string
  startTime :: string
  endTime :: string
  startDatetime :: string
  endDatetime :: string

text \<open>\<open>/(\w+ Launch Day(?: \(\d+\))?) (\d+\/\d+ \w+|\d+ \w+\/\d+ \w+) (\d{4}Z-\d{4}Z)/g\<close>\<close>

definition detailPattern :: regex where
  "detailPattern =
     seqs [Group (seqs [Plus WordC, Lit '' Launch Day'',
                        Opt (seqs [Lit '' ('', Plus DigitC, Lit '')''])]),
           Lit '' '',
           Group (Alt (seqs [Plus DigitC, Lit ''/'', Plus DigitC, Lit '' '', Plus WordC])
                      (seqs [Plus DigitC, Lit '' '', Plus WordC, Lit ''/'',
                             Plus DigitC, Lit '' '', Plus WordC])),
           Lit '' '',
           Group (seqs [Rep 4 DigitC, Lit ''Z-'', Rep 4 DigitC, Lit ''Z''])]"

text \<open>What the program writes to the console.\<close>

datatype logEntry =
    DetailError string error
  | Updated int
  | Inserted int
  | NoAction int
  | ProcessingError int error
  | FetchingError error
  | HandlerError error

text \<open>The body of the \<open>try\<close> block for one match \<open>[_, type, datePart, timePart]\<close>.\<close>

definition parseEntry :: "number \<Rightarrow> string list \<Rightarrow> error + ParsedDetail" where
  "parseEntry year caps =
     (case (at caps 1, at caps 2) of
        (Some datePart, Some timePart) \<Rightarrow>
          (case parseDatePart datePart year of
             Inl e \<Rightarrow> Inl e
           | Inr (sd, ed) \<Rightarrow>
               (case parseTimePart timePart of
                  Inl e \<Rightarrow> Inl e
                | Inr (st, et) \<Rightarrow>
                    Inr \<lparr> type = (case at caps 0 of None \<Rightarrow> [] | Some t \<Rightarrow> t),
                          startDate = sd, endDate = ed, startTime = st, endTime = et,
                          startDatetime = sd @ ''T'' @ st, endDatetime = ed @ ''T'' @ et \<rparr>))
      | _ \<Rightarrow> Inl TypeError)"

text \<open>
  A match of an expression consumes at least \<open>minLen\<close> characters, so a global scan
  with an expression of positive \<open>minLen\<close> moves forward at every match.
\<close>

lemma litMatch_length:
  "litMatch ic l s = Some rest \<Longrightarrow> length rest + length l = length s"
  by (induction ic l s rule: litMatch.induct) (auto split: if_splits)

lemma matches_length:
  "(caps, rest) \<in> set (matches ic r s) \<Longrightarrow> length rest + minLen r \<le> length s"
proof (induction r arbitrary: s caps rest)
  case (Lit l)
  then show ?case by (auto split: option.splits dest: litMatch_length [OF sym])
next
  case (Plus cl)
  have "length (takeWhile (inClass cl) s) \<le> length s" by (rule length_takeWhile_le)
  with Plus show ?case by auto
next
  case (Rep n cl)
  have "length (takeWhile (inClass cl) s) \<le> length s" by (rule length_takeWhile_le)
  with Rep show ?case by (auto split: if_splits)
next
  case (Seq a b)
  from Seq.prems obtain c1 r1 c2 where
    a: "(c1, r1) \<in> set (matches ic a s)" and b: "(c2, rest) \<in> set (matches ic b r1)"
    by auto
  from Seq.IH(1)[OF a] Seq.IH(2)[OF b] show ?case by simp
next
  case (Alt a b)
  then show ?case by fastforce
next
  case (Opt a)
  then show ?case by fastforce
next
  case (Group a)
  then show ?case by fastforce
qed

lemma exec_length:
  "exec ic r s = Some (m0, caps, rest) \<Longrightarrow> length rest + minLen r \<le> length s"
proof (induction s)
  case Nil
  show ?case
  proof (cases "matches ic r []")
    case Nil
    with Nil.prems show ?thesis by simp
  next
    case (Cons p ps)
    obtain c q where p: "p = (c, q)" by (cases p)
    with Cons Nil.prems have "q = rest" by simp
    with p Cons have "(c, rest) \<in> set (matches ic r [])" by simp
    then show ?thesis by (rule matches_length)
  qed
next
  case (Cons x xs)
  show ?case
  proof (cases "matches ic r (x # xs)")
    case Nil
    with Cons show ?thesis by simp
  next
    case (Cons p ps)
    obtain c q where p: "p = (c, q)" by (cases p)
    with Cons Cons.prems have "q = rest" by simp
    with p Cons have "(c, rest) \<in> set (matches ic r (x # xs))" by simp
    then show ?thesis by (rule matches_length)
  qed
qed

lemma minLen_detailPattern: "minLen detailPattern = 30"
  by (simp add: detailPattern_def)

text \<open>
  The \<open>while ((match = pattern.exec(details)) !== null)\<close> loop. The text still to be
  scanned stands for \<open>lastIndex\<close>; the state is \<open>parsedList\<close> and the console.
\<close>

function parseLoop ::
  "number \<Rightarrow> string \<Rightarrow> ParsedDetail list \<times> logEntry list \<Rightarrow> ParsedDetail list \<times> logEntry list"
where
  "parseLoop year s (parsedList, log) =
     (case exec False detailPattern s of
        None \<Rightarrow> (parsedList, log)
      | Some (m0, caps, rest) \<Rightarrow>
          (case parseEntry year caps of
             Inr d \<Rightarrow> parseLoop year rest (parsedList @ [d], log)
           | Inl e \<Rightarrow> parseLoop year rest (parsedList, log @ [DetailError m0 e])))"
  by pat_completeness auto
termination
proof (relation "measure (\<lambda>(year, s, acc). length s)")
  show "wf (measure (\<lambda>(year, s, acc). length s))" by simp
qed (auto dest!: exec_length simp: minLen_detailPattern)

definition parseDetails :: "string \<Rightarrow> number \<Rightarrow> ParsedDetail list \<times> logEntry list" where
  "parseDetails details advisoryStartYear = parseLoop advisoryStartYear details ([], [])"

section \<open>Advisories and the store\<close>

text \<open>
  An advisory as received: the fields the program reads, and the remaining descriptive
  fields kept as they came (name and text). \<open>parsedDetails\<close> is the optional field the
  pipeline sets.
\<close>

record Advisory =
  advisoryid :: int
  advisorystarttime :: string
  summary :: string
  details :: string
  otherFields :: "(string \<times> string) list"
  parsedDetails :: "ParsedDetail list option"

record Response =
  rows :: "Advisory list"

text \<open>\<open>/(Starship|SpaceX|Starlink)/i\<close>\<close>

definition relevancePattern :: regex where
  "relevancePattern = Group (Alt (Lit ''Starship'') (Alt (Lit ''SpaceX'') (Lit ''Starlink'')))"

definition relevant :: "Advisory \<Rightarrow> bool" where
  "relevant advisory = test True relevancePattern (summary advisory)"

text \<open>
  A collection is the sequence of its documents; the identifier the store gives a
  document is not part of the model. The result of \<open>replaceOne\<close> carries \<open>matchedCount\<close>
  and whether \<open>upsertedId\<close> is set.
\<close>

type_synonym collection = "Advisory list"

record ReplaceResult =
  matchedCount :: nat
  upsertedId :: bool

text \<open>
  \<open>collection\<close> is a parameter of \<open>fetchAndProcessAdvisories\<close>; its method
  \<open>replaceOne({advisoryid: k}, doc, {upsert: true})\<close> is a parameter of the model. It may
  fail, and then leaves the collection as it was.
\<close>

type_synonym replaceOneOp = "int \<Rightarrow> Advisory \<Rightarrow> collection \<Rightarrow> error + (ReplaceResult \<times> collection)"

text \<open>
  Modelled from the spec: the store's upsert-by-filter operation, which belongs to the
  document-store client and is not in the source. A stored document whose \<open>advisoryid\<close>
  is the key is replaced wholesale by the new document (the first one in the collection's
  order, if there are several); when there is none, the new document is added.
  \<open>replaceFirst\<close> is the replacement, \<open>storeReplaceOne\<close> the operation with its result.
\<close>

fun replaceFirst :: "int \<Rightarrow> Advisory \<Rightarrow> collection \<Rightarrow> collection" where
  "replaceFirst k doc [] = []"
| "replaceFirst k doc (d # ds) =
     (if advisoryid d = k then doc # ds else d # replaceFirst k doc ds)"

definition storeReplaceOne :: replaceOneOp where
  "storeReplaceOne k doc coll =
     (if k \<in> advisoryid ` set coll
      then Inr (\<lparr> matchedCount = 1, upsertedId = False \<rparr>, replaceFirst k doc coll)
      else Inr (\<lparr> matchedCount = 0, upsertedId = True \<rparr>, coll @ [doc]))"

section \<open>Ingestion pipeline\<close>

text \<open>
  \<open>utcFullYear\<close> stands for \<open>new Date(t).getUTCFullYear()\<close>, which belongs to the
  runtime. \<open>enrich\<close> is the enriched advisory \<open>{ ...advisory, parsedDetails }\<close>;
  \<open>processAdvisory\<close> is the body of the \<open>for\<close> loop for one advisory, with its
  \<open>try\<close>/\<open>catch\<close>, on the collection and the console.
\<close>

definition enrich :: "(string \<Rightarrow> number) \<Rightarrow> Advisory \<Rightarrow> Advisory" where
  "enrich utcFullYear advisory =
     advisory \<lparr> parsedDetails :=
       Some (fst (parseDetails (details advisory) (utcFullYear (advisorystarttime advisory)))) \<rparr>"

definition processAdvisory ::
  "replaceOneOp \<Rightarrow> (string \<Rightarrow> number) \<Rightarrow> Advisory \<Rightarrow> collection \<times> logEntry list
     \<Rightarrow> collection \<times> logEntry list"
where
  "processAdvisory replaceOne utcFullYear advisory st =
     (let startYear = utcFullYear (advisorystarttime advisory);
          parsed = parseDetails (details advisory) startYear;
          updatedAdvisory = advisory \<lparr> parsedDetails := Some (fst parsed) \<rparr>;
          log = snd st @ snd parsed
      in case replaceOne (advisoryid updatedAdvisory) updatedAdvisory (fst st) of
           Inl e \<Rightarrow> (fst st, log @ [ProcessingError (advisoryid advisory) e])
         | Inr (result, coll) \<Rightarrow>
             (coll, log @
                [if matchedCount result > 0 then Updated (advisoryid updatedAdvisory)
                 else if upsertedId result then Inserted (advisoryid updatedAdvisory)
                 else NoAction (advisoryid updatedAdvisory)]))"

text \<open>
  \<open>fetched\<close> is the outcome of the two awaited calls \<open>fetch(...)\<close> and
  \<open>response.json()\<close>. The result is the collection after the run and the console.
\<close>

definition fetchAndProcessAdvisories ::
  "replaceOneOp \<Rightarrow> (string \<Rightarrow> number) \<Rightarrow> error + Response \<Rightarrow> collection
     \<Rightarrow> collection \<times> logEntry list"
where
  "fetchAndProcessAdvisories replaceOne utcFullYear fetched coll =
     (case fetched of
        Inl e \<Rightarrow> (coll, [FetchingError e])
      | Inr data \<Rightarrow>
          fold (processAdvisory replaceOne utcFullYear) (filter relevant (rows data)) (coll, []))"

section \<open>The two endpoints\<close>

text \<open>
  A store server holds collections addressed by database name and collection name. Both
  endpoints connect with the same connection string, so they see the same server.
  Response headers are not modelled.
\<close>

type_synonym server = "string \<times> string \<Rightarrow> collection"

datatype body =
    NoBody
  | Message string
  | ServerError error
  | ErrorMessage error
  | Advisories "Advisory list"

record response =
  status :: nat
  body :: body

record request =
  httpMethod :: string

record environment =
  mongoUri :: "string option"
  connectFailure :: "error option"
  fetched :: "error + Response"

text \<open>\<open>!uri\<close> holds for a connection string that is not set and for the empty one.\<close>

definition undefinedUri :: "string option \<Rightarrow> bool" where
  "undefinedUri uri = (uri = None \<or> uri = Some [])"

text \<open>
  The write trigger. A missing connection string is thrown before the \<open>try\<close> block, so
  the invocation itself fails (\<open>Inl\<close>).
\<close>

definition handler ::
  "replaceOneOp \<Rightarrow> (string \<Rightarrow> number) \<Rightarrow> environment \<Rightarrow> request \<Rightarrow> server
     \<Rightarrow> error + (response \<times> server \<times> logEntry list)"
where
  "handler replaceOne utcFullYear env req srv =
     (if httpMethod req = ''OPTIONS'' then Inr (\<lparr> status = 200, body = NoBody \<rparr>, srv, [])
      else
      if undefinedUri (mongoUri env) then Inl ConfigError
      else
        (case connectFailure env of
           Some e \<Rightarrow> Inr (\<lparr> status = 500, body = ServerError e \<rparr>, srv, [HandlerError e])
         | None \<Rightarrow>
             if httpMethod req = ''POST'' then
               (let name = (''advisories_db'', ''starship_advisories'');
                    r = fetchAndProcessAdvisories replaceOne utcFullYear (fetched env) (srv name)
                in Inr (\<lparr> status = 200, body = Message ''Advisories processed'' \<rparr>,
                        srv (name := fst r), snd r))
             else Inr (\<lparr> status = 405, body = Message ''Method not allowed'' \<rparr>, srv, [])))"

text \<open>The read endpoint (\<open>api/spacex/advisories.ts\<close>); \<open>findAll\<close> is
  \<open>collection.find().toArray()\<close>, which may fail.\<close>

definition readHandler ::
  "(collection \<Rightarrow> error + Advisory list) \<Rightarrow> environment \<Rightarrow> request \<Rightarrow> server \<Rightarrow> response"
where
  "readHandler findAll env req srv =
     (if httpMethod req = ''OPTIONS'' then \<lparr> status = 200, body = NoBody \<rparr>
      else if httpMethod req \<noteq> ''GET'' then \<lparr> status = 405, body = Message ''Method Not Allowed'' \<rparr>
      else
      if undefinedUri (mongoUri env) then
        \<lparr> status = 500, body = Message ''MONGODB_URI is not defined'' \<rparr>
      else
        (case connectFailure env of
           Some e \<Rightarrow> \<lparr> status = 500, body = ErrorMessage e \<rparr>
         | None \<Rightarrow>
             (case findAll (srv (''danielmillar'', ''faa_advisories'')) of
                Inl e \<Rightarrow> \<lparr> status = 500, body = ErrorMessage e \<rparr>
              | Inr documents \<Rightarrow> \<lparr> status = 200, body = Advisories documents \<rparr>)))"

section \<open>Reference notions\<close>

text \<open>
  The notions the properties below are stated with. The English month abbreviations in
  calendar order; two characters are case variants of each other when they are equal or
  are the lower-case and upper-case form of one letter.
\<close>

definition monthAbbreviations :: "string list" where
  "monthAbbreviations =
     [''JAN'', ''FEB'', ''MAR'', ''APR'', ''MAY'', ''JUN'',
      ''JUL'', ''AUG'', ''SEP'', ''OCT'', ''NOV'', ''DEC'']"

definition caseVariant :: "char \<Rightarrow> char \<Rightarrow> bool" where
  "caseVariant a b =
     (a = b \<or> (a, b) \<in> set (zip lowerLetters upperLetters)
            \<or> (b, a) \<in> set (zip lowerLetters upperLetters))"

definition sameIgnoringCase :: "string \<Rightarrow> string \<Rightarrow> bool" where
  "sameIgnoringCase s t = list_all2 caseVariant s t"

text \<open>
  The operator keywords of the relevance filter, and what it is for a text to contain a
  keyword case-insensitively: some stretch of the text is the keyword up to letter case.
\<close>

definition operatorKeywords :: "string list" where
  "operatorKeywords = [''Starship'', ''SpaceX'', ''Starlink'']"

definition containsIgnoringCase :: "string \<Rightarrow> string \<Rightarrow> bool" where
  "containsIgnoringCase kw s = (\<exists>pre x suf. s = pre @ x @ suf \<and> sameIgnoringCase x kw)"

text \<open>
  The occurrences of the detail pattern in a text, from left to right: each is the matched
  text with its captured groups, and the scan resumes after it. An occurrence yields a
  window when the body of the loop succeeds on it, and a console line when it fails.
\<close>

function occurrences :: "string \<Rightarrow> (string \<times> string list) list" where
  "occurrences s =
     (case exec False detailPattern s of
        None \<Rightarrow> []
      | Some (m0, caps, rest) \<Rightarrow> (m0, caps) # occurrences rest)"
  by pat_completeness auto
termination
proof (relation "measure length")
  show "wf (measure length)" by simp
qed (auto dest!: exec_length simp: minLen_detailPattern)

definition windowOf :: "number \<Rightarrow> string \<times> string list \<Rightarrow> ParsedDetail list" where
  "windowOf year occ = (case parseEntry year (snd occ) of Inl e \<Rightarrow> [] | Inr d \<Rightarrow> [d])"

definition failureOf :: "number \<Rightarrow> string \<times> string list \<Rightarrow> logEntry list" where
  "failureOf year occ =
     (case parseEntry year (snd occ) of Inl e \<Rightarrow> [DetailError (fst occ) e] | Inr d \<Rightarrow> [])"

text \<open>
  One run of the pipeline against the store, as a function on the collection; the latest
  relevant advisory of a batch with a given identity; the stored records with a given
  identity; the advisory of the end-to-end example; and one upsert, the effect of the loop
  body on the collection.
\<close>

definition ingest :: "(string \<Rightarrow> number) \<Rightarrow> Advisory list \<Rightarrow> collection \<Rightarrow> collection" where
  "ingest utcFullYear batch coll =
     fst (fetchAndProcessAdvisories storeReplaceOne utcFullYear (Inr \<lparr> rows = batch \<rparr>) coll)"

definition latest :: "Advisory list \<Rightarrow> int \<Rightarrow> Advisory option" where
  "latest batch k = List.find (\<lambda>a. advisoryid a = k) (rev (filter relevant batch))"

definition stored :: "collection \<Rightarrow> int \<Rightarrow> Advisory list" where
  "stored coll k = filter (\<lambda>d. advisoryid d = k) coll"

definition exampleAdvisory :: Advisory where
  "exampleAdvisory =
     \<lparr> advisoryid = 42, advisorystarttime = ''2024-06-01T00:00:00Z'', summary = ''SpaceX test'',
       details = ''Static Fire Launch Day 3 JUN/4 JUN 1200Z-1800Z'', otherFields = [],
       parsedDetails = None \<rparr>"

definition upsert :: "Advisory \<Rightarrow> collection \<Rightarrow> collection" where
  "upsert d coll =
     (if advisoryid d \<in> advisoryid ` set coll then replaceFirst (advisoryid d) d coll
      else coll @ [d])"

text \<open>The collections the two endpoints address.\<close>

definition writeCollection :: "string \<times> string" where
  "writeCollection = (''advisories_db'', ''starship_advisories'')"

definition readCollection :: "string \<times> string" where
  "readCollection = (''danielmillar'', ''faa_advisories'')"

text \<open>
  The parts of the detail pattern: the label, the two shapes of the date-range fragment
  and the time-range fragment. The window built from a label, a pair of dates and a pair of
  times; a date and a time as the parsers write them.
\<close>

definition labelPattern :: regex where
  "labelPattern =
     seqs [Plus WordC, Lit '' Launch Day'', Opt (seqs [Lit '' ('', Plus DigitC, Lit '')''])]"

definition shortDatePattern :: regex where
  "shortDatePattern = seqs [Plus DigitC, Lit ''/'', Plus DigitC, Lit '' '', Plus WordC]"

definition longDatePattern :: regex where
  "longDatePattern =
     seqs [Plus DigitC, Lit '' '', Plus WordC, Lit ''/'', Plus DigitC, Lit '' '', Plus WordC]"

definition timePattern :: regex where
  "timePattern = Group (seqs [Rep 4 DigitC, Lit ''Z-'', Rep 4 DigitC, Lit ''Z''])"

definition isoDate :: "number \<Rightarrow> nat \<Rightarrow> string \<Rightarrow> string" where
  "isoDate year month day =
     numberToString year @ ''-'' @ padStart2 (showNat month) @ ''-'' @ padStart2 day"

definition isoTime :: "string \<Rightarrow> string" where
  "isoTime t = take 2 t @ '':'' @ drop 2 t @ '':00Z''"

definition windowFrom :: "string \<Rightarrow> string \<times> string \<Rightarrow> string \<times> string \<Rightarrow> ParsedDetail" where
  "windowFrom label dates tms =
     \<lparr> type = label, startDate = fst dates, endDate = snd dates,
       startTime = fst tms, endTime = snd tms,
       startDatetime = fst dates @ ''T'' @ fst tms,
       endDatetime = snd dates @ ''T'' @ snd tms \<rparr>"

section \<open>Properties of the time-range parser\<close>

lemma split_not_Nil: "split c s \<noteq> []"
  by (induction s) (auto split: list.splits)

lemma split_no_sep: "c \<notin> set s \<Longrightarrow> split c s = [s]"
  by (induction s) auto

lemma split_append_sep: "c \<notin> set x \<Longrightarrow> split c (x @ c # y) = x # split c y"
  by (induction x) auto

lemma at_split_0: "at (split c s) 0 \<noteq> None"
  by (cases "split c s") (auto simp: split_not_Nil)

lemma at_split_1: "at (split c s) (Suc 0) = None \<longleftrightarrow> c \<notin> set s"
proof
  assume "c \<notin> set s" then show "at (split c s) (Suc 0) = None" by (simp add: split_no_sep)
next
  assume h: "at (split c s) (Suc 0) = None"
  show "c \<notin> set s"
  proof
    assume "c \<in> set s"
    then obtain x y where "s = x @ c # y" "c \<notin> set x" by (auto dest: split_list_first)
    then have "split c s = x # split c y" by (simp add: split_append_sep)
    with h show False using split_not_Nil [of c y] by (cases "split c y") auto
  qed
qed

text \<open>
  Claim C4. For every well-formed time fragment, four digits, \<open>-\<close>, four digits, each side
  with or without a trailing \<open>Z\<close>, the time-range parser returns the pair of
  \<open>HH:MM:00Z\<close> strings built from the first four digits of each side: the seconds are
  \<open>00\<close> and the suffix \<open>Z\<close> is a literal.
\<close>

theorem parseTimePart_well_formed:
  assumes "length a = 4" and "list_all isDigit a" and "length b = 4" and "list_all isDigit b"
    and "za = [] \<or> za = ''Z''" and "zb = [] \<or> zb = ''Z''"
  shows "parseTimePart (a @ za @ ''-'' @ b @ zb) =
           Inr (take 2 a @ '':'' @ drop 2 a @ '':00Z'', take 2 b @ '':'' @ drop 2 b @ '':00Z'')"
proof -
  have nd: "\<not> isDigit (CHR ''-'')" by (simp add: isDigit_def)
  have a: "CHR ''-'' \<notin> set (a @ za)" using assms(2,5) nd by (auto simp: list_all_iff)
  have b: "CHR ''-'' \<notin> set (b @ zb)" using assms(4,6) nd by (auto simp: list_all_iff)
  have "split (CHR ''-'') ((a @ za) @ CHR ''-'' # (b @ zb)) = [a @ za, b @ zb]"
    using a b split_append_sep [of "CHR ''-''" "a @ za" "b @ zb"]
      split_no_sep [of "CHR ''-''" "b @ zb"] by simp
  then have s: "split (CHR ''-'') (a @ za @ ''-'' @ b @ zb) = [a @ za, b @ zb]" by simp
  have "slice (a @ za) 0 2 = take 2 a" "slice (a @ za) 2 4 = drop 2 a"
       "slice (b @ zb) 0 2 = take 2 b" "slice (b @ zb) 2 4 = drop 2 b"
    using assms(1,3) by (simp_all add: slice_def)
  with s show ?thesis by (simp add: parseTimePart_def timeString_def)
qed

text \<open>The fragments \<open>1200-1430\<close> and \<open>1200Z-1430Z\<close> both give \<open>12:00:00Z\<close> and \<open>14:30:00Z\<close>.\<close>

theorem parseTimePart_well_formed_witness:
  "parseTimePart ''1200-1430'' = Inr (''12:00:00Z'', ''14:30:00Z'') \<and>
   parseTimePart ''1200Z-1430Z'' = Inr (''12:00:00Z'', ''14:30:00Z'')"
  using parseTimePart_well_formed [of "''1200''" "''1430''" "[]" "[]"]
    parseTimePart_well_formed [of "''1200''" "''1430''" "''Z''" "''Z''"]
  by (simp add: isDigit_def)

text \<open>
  Claim C5, as amended. The time-range parser fails exactly when the fragment contains no
  \<open>-\<close>: the second side is then \<open>undefined\<close> and the failure is wrapped as a
  malformed-time-part error. A fragment with a \<open>-\<close> always yields a result, however short
  its sides are.
\<close>

theorem parseTimePart_fails_iff_no_dash:
  "(CHR ''-'' \<notin> set s \<longrightarrow> parseTimePart s = Inl (FailedTimePart s TypeError)) \<and>
   (CHR ''-'' \<in> set s \<longrightarrow> (\<exists>r. parseTimePart s = Inr r))"
proof -
  obtain t where t: "at (split (CHR ''-'') s) 0 = Some t"
    using at_split_0 [of "CHR ''-''" s] by auto
  show ?thesis
  proof (cases "CHR ''-'' \<in> set s")
    case True
    then obtain u where "at (split (CHR ''-'') s) (Suc 0) = Some u"
      using at_split_1 [of "CHR ''-''" s] by auto
    with t True show ?thesis by (simp add: parseTimePart_def timeString_def)
  next
    case False
    then have "at (split (CHR ''-'') s) (Suc 0) = None" by (simp add: at_split_1)
    with t False show ?thesis by (simp add: parseTimePart_def timeString_def)
  qed
qed

theorem parseTimePart_fails_iff_no_dash_witness:
  "parseTimePart ''1234'' = Inl (FailedTimePart ''1234'' TypeError) \<and>
   (\<exists>r. parseTimePart ''12-34'' = Inr r)"
  using parseTimePart_fails_iff_no_dash [of "''1234''"]
    parseTimePart_fails_iff_no_dash [of "''12-34''"] by simp

text \<open>
  The claim as stated fails: both sides of \<open>12-34\<close> have fewer than four characters, and
  the parser returns a (garbled) pair.
\<close>

theorem parseTimePart_short_sides_counterexample:
  "parseTimePart ''12-34'' = Inr (''12::00Z'', ''34::00Z'')"
  by code_simp

section \<open>Properties of the month lookup\<close>

lemma distinct_lowerLetters: "distinct lowerLetters"
  by (simp add: lowerLetters_def)

lemma upper_not_lower_all: "list_all (\<lambda>u. u \<notin> set lowerLetters) upperLetters"
  by (simp add: lowerLetters_def upperLetters_def)

lemma length_letters: "length lowerLetters = length upperLetters"
  by (simp add: lowerLetters_def upperLetters_def)

lemma upper_not_lower: "u \<in> set upperLetters \<Longrightarrow> u \<notin> set lowerLetters"
  using upper_not_lower_all by (simp add: list_all_iff)

lemma toUpperChar_upper: "u \<in> set upperLetters \<Longrightarrow> toUpperChar u = u"
  using map_of_zip_is_None [OF length_letters, of u]
  by (simp add: toUpperChar_def upper_not_lower)

lemma toUpperChar_lower:
  assumes "(a, u) \<in> set (zip lowerLetters upperLetters)"
  shows "toUpperChar a = u"
proof -
  have "distinct (map fst (zip lowerLetters upperLetters))"
    by (simp add: length_letters distinct_lowerLetters)
  from map_of_is_SomeI [OF this assms] show ?thesis by (simp add: toUpperChar_def)
qed

lemma toUpperChar_cases:
  "toUpperChar a = a \<or> (a, toUpperChar a) \<in> set (zip lowerLetters upperLetters)"
  by (auto simp: toUpperChar_def split: option.splits dest: map_of_SomeD)



lemma monthMap_zip: "monthMap = zip monthAbbreviations [1 ..< 13]"
  by (simp add: monthMap_def monthAbbreviations_def upt_rec)

lemma monthAbbreviations_upper:
  "k \<in> set monthAbbreviations \<Longrightarrow> \<forall>u \<in> set k. u \<in> set upperLetters"
  by (auto simp: monthAbbreviations_def upperLetters_def)

lemma map_of_monthMap:
  "map_of monthMap x = Some n \<longleftrightarrow> (x, n) \<in> set monthMap"
  by (rule map_of_eq_Some_iff) (simp add: monthMap_def)




section \<open>Properties of the date-range parser\<close>

lemma letters_digits_plain:
  "list_all (\<lambda>c. \<not> isSpace c \<and> c \<noteq> CHR ''/'') (lowerLetters @ upperLetters @ ''0123456789'')"
  by (simp add: lowerLetters_def upperLetters_def isSpace_def)

lemma letters_digits_plain_set:
  "c \<in> set lowerLetters \<union> set upperLetters \<union> set ''0123456789''
     \<Longrightarrow> \<not> isSpace c \<and> c \<noteq> CHR ''/''"
  using letters_digits_plain unfolding list_all_iff set_append by blast

lemma digit_plain: "isDigit c \<Longrightarrow> \<not> isSpace c \<and> c \<noteq> CHR ''/''"
  unfolding isDigit_def by (rule letters_digits_plain_set) blast

lemma letter_plain:
  "c \<in> set lowerLetters \<union> set upperLetters \<Longrightarrow> \<not> isSpace c \<and> c \<noteq> CHR ''/''"
  by (rule letters_digits_plain_set) blast

lemma space_isSpace: "isSpace (CHR '' '')"
  by (simp add: isSpace_def)

lemma getMonth_letters:
  assumes "getMonth m = Inr n"
  shows "m \<noteq> [] \<and> (\<forall>c \<in> set m. c \<in> set lowerLetters \<union> set upperLetters)"
proof -
  from assms have "(toUpperCase m, n) \<in> set monthMap"
    by (auto simp: getMonth_def map_of_monthMap split: option.splits if_splits)
  then have k: "toUpperCase m \<in> set monthAbbreviations"
    by (auto simp: monthMap_zip dest: set_zip_leftD)
  then have up: "\<forall>u \<in> set (toUpperCase m). u \<in> set upperLetters"
    by (rule monthAbbreviations_upper)
  have "c \<in> set lowerLetters \<union> set upperLetters" if "c \<in> set m" for c
  proof -
    from that up have "toUpperChar c \<in> set upperLetters" by (simp add: toUpperCase_def)
    with toUpperChar_cases [of c] show ?thesis by (auto dest: set_zip_leftD)
  qed
  moreover from k have "toUpperCase m \<noteq> []" by (auto simp: monthAbbreviations_def)
  then have "m \<noteq> []" by (auto simp: toUpperCase_def)
  ultimately show ?thesis by blast
qed

lemma getMonth_plain:
  assumes "getMonth m = Inr n"
  shows "m \<noteq> []" and "\<forall>c \<in> set m. \<not> isSpace c \<and> c \<noteq> CHR ''/''"
proof -
  from getMonth_letters [OF assms] show "m \<noteq> []" by simp
  show "\<forall>c \<in> set m. \<not> isSpace c \<and> c \<noteq> CHR ''/''"
  proof
    fix c assume "c \<in> set m"
    with getMonth_letters [OF assms] have "c \<in> set lowerLetters \<union> set upperLetters" by simp
    then show "\<not> isSpace c \<and> c \<noteq> CHR ''/''" by (rule letter_plain)
  qed
qed

lemma digits_plain:
  assumes "list_all isDigit d"
  shows "\<forall>c \<in> set d. \<not> isSpace c \<and> c \<noteq> CHR ''/''"
proof
  fix c assume "c \<in> set d"
  with assms have "isDigit c" by (simp add: list_all_iff)
  then show "\<not> isSpace c \<and> c \<noteq> CHR ''/''" by (rule digit_plain)
qed

lemma trim_plain_ends:
  assumes "s \<noteq> []" and "\<not> isSpace (hd s)" and "\<not> isSpace (last s)"
  shows "trim s = s"
proof -
  from assms(1,2) have 1: "dropWhile isSpace s = s" by (cases s) auto
  from assms(1,3) have "dropWhile isSpace (rev s) = rev s"
    by (cases "rev s") (auto simp: hd_rev [symmetric])
  with 1 show ?thesis by (simp add: trim_def)
qed

lemma split_two:
  "c \<notin> set x \<Longrightarrow> c \<notin> set y \<Longrightarrow> split c (x @ c # y) = [x, y]"
  by (simp add: split_append_sep split_no_sep)

lemma day_facts:
  assumes "d \<noteq> []" and "list_all isDigit d"
  shows "trim d = d" and "CHR ''/'' \<notin> set d" and "CHR '' '' \<notin> set d"
proof -
  note p = digits_plain [OF assms(2)]
  from p show "CHR ''/'' \<notin> set d" by blast
  from p space_isSpace show "CHR '' '' \<notin> set d" by blast
  from assms(1) p show "trim d = d" by (intro trim_plain_ends) auto
qed

lemma side_facts:
  assumes "d \<noteq> []" and "list_all isDigit d" and "getMonth m = Inr n"
  shows "trim (d @ CHR '' '' # m) = d @ CHR '' '' # m"
    and "CHR ''/'' \<notin> set (d @ CHR '' '' # m)"
    and "split (CHR '' '') (d @ CHR '' '' # m) = [d, m]"
proof -
  note p = digits_plain [OF assms(2)]
  note q = getMonth_plain [OF assms(3)]
  from p q show "CHR ''/'' \<notin> set (d @ CHR '' '' # m)" by auto
  from assms(1) p q show "trim (d @ CHR '' '' # m) = d @ CHR '' '' # m"
    by (intro trim_plain_ends) (auto simp: hd_append)
  from q(2) space_isSpace have "CHR '' '' \<notin> set m" by blast
  with day_facts(3) [OF assms(1,2)] show "split (CHR '' '') (d @ CHR '' '' # m) = [d, m]"
    by (rule split_two)
qed

lemma parseDateSides_two_months:
  assumes "d1 \<noteq> []" "list_all isDigit d1" "d2 \<noteq> []" "list_all isDigit d2"
    and m1: "getMonth m1 = Inr n1" and m2: "getMonth m2 = Inr n2"
  shows "parseDateSides (d1 @ CHR '' '' # m1) (d2 @ CHR '' '' # m2) year =
      Inr (numberToString year @ ''-'' @ padStart2 (showNat n1) @ ''-'' @ padStart2 d1,
           numberToString year @ ''-'' @ padStart2 (showNat n2) @ ''-'' @ padStart2 d2)"
  using side_facts(3) [OF assms(1,2) m1] side_facts(3) [OF assms(3,4) m2] m1 m2
  by (simp add: parseDateSides_def dateString_def getMonthOpt_def)

lemma parseDateSides_one_month:
  assumes "d1 \<noteq> []" "list_all isDigit d1" "d2 \<noteq> []" "list_all isDigit d2"
    and m2: "getMonth m2 = Inr n2"
  shows "parseDateSides d1 (d2 @ CHR '' '' # m2) year =
      Inr (numberToString year @ ''-'' @ padStart2 (showNat n2) @ ''-'' @ padStart2 d1,
           numberToString year @ ''-'' @ padStart2 (showNat n2) @ ''-'' @ padStart2 d2)"
  using side_facts(3) [OF assms(3,4) m2] day_facts(3) [OF assms(1,2)] m2
  by (simp add: parseDateSides_def getMonthOpt_def)

lemma split_date_two_months:
  assumes "d1 \<noteq> []" "list_all isDigit d1" "d2 \<noteq> []" "list_all isDigit d2"
    and m1: "getMonth m1 = Inr n1" and m2: "getMonth m2 = Inr n2"
  shows "map trim (split (CHR ''/'') (d1 @ '' '' @ m1 @ ''/'' @ d2 @ '' '' @ m2)) =
           [d1 @ CHR '' '' # m1, d2 @ CHR '' '' # m2]"
proof -
  have "split (CHR ''/'') ((d1 @ CHR '' '' # m1) @ CHR ''/'' # (d2 @ CHR '' '' # m2)) =
          [d1 @ CHR '' '' # m1, d2 @ CHR '' '' # m2]"
    using side_facts(2) [OF assms(1,2) m1] side_facts(2) [OF assms(3,4) m2] by (rule split_two)
  then show ?thesis
    using side_facts(1) [OF assms(1,2) m1] side_facts(1) [OF assms(3,4) m2] by simp
qed

lemma split_date_one_month:
  assumes "d1 \<noteq> []" "list_all isDigit d1" "d2 \<noteq> []" "list_all isDigit d2"
    and m2: "getMonth m2 = Inr n2"
  shows "map trim (split (CHR ''/'') (d1 @ ''/'' @ d2 @ '' '' @ m2)) =
           [d1, d2 @ CHR '' '' # m2]"
proof -
  have "split (CHR ''/'') (d1 @ CHR ''/'' # (d2 @ CHR '' '' # m2)) = [d1, d2 @ CHR '' '' # m2]"
    using day_facts(2) [OF assms(1,2)] side_facts(2) [OF assms(3,4) m2] by (rule split_two)
  then show ?thesis
    using day_facts(1) [OF assms(1,2)] side_facts(1) [OF assms(3,4) m2] by simp
qed

text \<open>
  Claim C3. The date-range parser handles both accepted shapes. When both sides carry a
  month (\<open>d1 m1/d2 m2\<close>) each side resolves its own month; when only the second side
  carries one (\<open>d1/d2 m2\<close>) the first day is paired with the second side's month. The
  days are runs of digits and the months are abbreviations the month lookup accepts; day
  and month are padded with zeros to two digits.
\<close>

theorem parseDatePart_both_shapes:
  assumes "d1 \<noteq> []" and "list_all isDigit d1" and "d2 \<noteq> []" and "list_all isDigit d2"
    and "getMonth m1 = Inr n1" and "getMonth m2 = Inr n2"
  shows "parseDatePart (d1 @ '' '' @ m1 @ ''/'' @ d2 @ '' '' @ m2) year =
           Inr (numberToString year @ ''-'' @ padStart2 (showNat n1) @ ''-'' @ padStart2 d1,
                numberToString year @ ''-'' @ padStart2 (showNat n2) @ ''-'' @ padStart2 d2)
       \<and> parseDatePart (d1 @ ''/'' @ d2 @ '' '' @ m2) year =
           Inr (numberToString year @ ''-'' @ padStart2 (showNat n2) @ ''-'' @ padStart2 d1,
                numberToString year @ ''-'' @ padStart2 (showNat n2) @ ''-'' @ padStart2 d2)"
proof
  show "parseDatePart (d1 @ '' '' @ m1 @ ''/'' @ d2 @ '' '' @ m2) year =
           Inr (numberToString year @ ''-'' @ padStart2 (showNat n1) @ ''-'' @ padStart2 d1,
                numberToString year @ ''-'' @ padStart2 (showNat n2) @ ''-'' @ padStart2 d2)"
    unfolding parseDatePart_def split_date_two_months [OF assms]
    by (simp add: parseDateSides_two_months [OF assms])
  show "parseDatePart (d1 @ ''/'' @ d2 @ '' '' @ m2) year =
           Inr (numberToString year @ ''-'' @ padStart2 (showNat n2) @ ''-'' @ padStart2 d1,
                numberToString year @ ''-'' @ padStart2 (showNat n2) @ ''-'' @ padStart2 d2)"
    unfolding parseDatePart_def split_date_one_month [OF assms(1-4,6)]
    by (simp add: parseDateSides_one_month [OF assms(1-4,6)])
qed

text \<open>
  \<open>3 JAN/5 FEB\<close> in 2024 is \<open>2024-01-03\<close> to \<open>2024-02-05\<close>, and \<open>3/5 JAN\<close> is
  \<open>2024-01-03\<close> to \<open>2024-01-05\<close>.
\<close>

theorem parseDatePart_both_shapes_witness:
  "parseDatePart ''3 JAN/5 FEB'' (Num 2024) = Inr (''2024-01-03'', ''2024-02-05'') \<and>
   parseDatePart ''3/5 JAN'' (Num 2024) = Inr (''2024-01-03'', ''2024-01-05'')"
proof -
  have g: "getMonth ''JAN'' = Inr 1" "getMonth ''FEB'' = Inr 2" by code_simp+
  have d: "list_all isDigit ''3''" "list_all isDigit ''5''" by (simp_all add: isDigit_def)
  have s: "numberToString (Num 2024) = ''2024''" "padStart2 (showNat 1) = ''01''"
    "padStart2 (showNat 2) = ''02''" "padStart2 ''3'' = ''03''" "padStart2 ''5'' = ''05''"
    by code_simp+
  from parseDatePart_both_shapes [of "''3''" "''5''" "''JAN''" 1 "''FEB''" 2 "Num 2024"] g d s
  have "parseDatePart ''3 JAN/5 FEB'' (Num 2024) = Inr (''2024-01-03'', ''2024-02-05'')" by simp
  moreover
  from parseDatePart_both_shapes [of "''3''" "''5''" "''JAN''" 1 "''JAN''" 1 "Num 2024"] g d s
  have "parseDatePart ''3/5 JAN'' (Num 2024) = Inr (''2024-01-03'', ''2024-01-05'')" by simp
  ultimately show ?thesis by simp
qed

section \<open>Properties of the relevance filter\<close>

lemma distinct_upperLetters: "distinct upperLetters"
  by (simp add: upperLetters_def)

lemma zip_right_unique:
  assumes "distinct ys" and "(a, u) \<in> set (zip xs ys)" and "(b, u) \<in> set (zip xs ys)"
  shows "a = b"
proof -
  from assms(2) obtain i where i: "i < length xs" "i < length ys" "xs ! i = a" "ys ! i = u"
    by (auto simp: in_set_zip)
  from assms(3) obtain j where j: "j < length xs" "j < length ys" "xs ! j = b" "ys ! j = u"
    by (auto simp: in_set_zip)
  from i(4) j(4) have "ys ! i = ys ! j" by simp
  with assms(1) i(2) j(2) have "i = j" by (simp add: nth_eq_iff_index_eq)
  with i(3) j(3) show ?thesis by simp
qed

lemma toUpperChar_eq_iff: "toUpperChar a = toUpperChar b \<longleftrightarrow> caseVariant a b"
proof
  assume "caseVariant a b"
  then consider "a = b" | "(a, b) \<in> set (zip lowerLetters upperLetters)"
    | "(b, a) \<in> set (zip lowerLetters upperLetters)"
    by (auto simp: caseVariant_def)
  then show "toUpperChar a = toUpperChar b"
  proof cases
    case 1 then show ?thesis by simp
  next
    case 2
    then have "b \<in> set upperLetters" by (rule set_zip_rightD)
    with 2 show ?thesis by (simp add: toUpperChar_lower toUpperChar_upper)
  next
    case 3
    then have "a \<in> set upperLetters" by (rule set_zip_rightD)
    with 3 show ?thesis by (simp add: toUpperChar_lower toUpperChar_upper)
  qed
next
  assume eq: "toUpperChar a = toUpperChar b"
  show "caseVariant a b"
  proof (cases "toUpperChar a = a")
    case True
    with eq toUpperChar_cases [of b] show ?thesis by (auto simp: caseVariant_def)
  next
    case False
    with toUpperChar_cases [of a]
    have a: "(a, toUpperChar a) \<in> set (zip lowerLetters upperLetters)" by simp
    show ?thesis
    proof (cases "toUpperChar b = b")
      case True
      with eq a show ?thesis by (simp add: caseVariant_def)
    next
      case False
      with toUpperChar_cases [of b] eq
      have "(b, toUpperChar a) \<in> set (zip lowerLetters upperLetters)" by simp
      from zip_right_unique [OF distinct_upperLetters a this] show ?thesis
        by (simp add: caseVariant_def)
    qed
  qed
qed

lemma litMatch_ignoring_case:
  "litMatch True l s = Some rest \<longleftrightarrow> (\<exists>x. s = x @ rest \<and> sameIgnoringCase x l)"
proof (induction l arbitrary: s)
  case Nil
  then show ?case by (auto simp: sameIgnoringCase_def)
next
  case (Cons p ps)
  show ?case
  proof (cases s)
    case Nil
    then show ?thesis by (simp add: sameIgnoringCase_def)
  next
    case (Cons c cs)
    have "(\<exists>x. c # cs = x @ rest \<and> sameIgnoringCase x (p # ps)) \<longleftrightarrow>
          (caseVariant c p \<and> (\<exists>y. cs = y @ rest \<and> sameIgnoringCase y ps))"
      by (auto simp: sameIgnoringCase_def list_all2_Cons2 Cons_eq_append_conv)
    moreover have "caseVariant c p \<longleftrightarrow> toUpperChar p = toUpperChar c"
      using toUpperChar_eq_iff [of c p] by auto
    ultimately show ?thesis using Cons Cons.IH [of cs] by simp
  qed
qed

lemma exec_None_iff:
  "exec ic r s = None \<longleftrightarrow> (\<forall>pre t. s = pre @ t \<longrightarrow> matches ic r t = [])"
proof (induction s)
  case Nil
  then show ?case by (auto split: list.splits)
next
  case (Cons x xs)
  have "(\<forall>pre t. x # xs = pre @ t \<longrightarrow> matches ic r t = []) \<longleftrightarrow>
        (matches ic r (x # xs) = [] \<and> (\<forall>pre t. xs = pre @ t \<longrightarrow> matches ic r t = []))"
    by (auto simp: Cons_eq_append_conv)
  with Cons show ?case by (auto split: list.splits)
qed

lemma matches_relevancePattern:
  "matches True relevancePattern t \<noteq> [] \<longleftrightarrow>
     (\<exists>kw \<in> set operatorKeywords. litMatch True kw t \<noteq> None)"
  by (simp add: relevancePattern_def operatorKeywords_def split: option.splits)

lemma relevant_iff:
  "relevant a \<longleftrightarrow> (\<exists>kw \<in> set operatorKeywords. containsIgnoringCase kw (summary a))"
proof -
  have "relevant a \<longleftrightarrow>
      (\<exists>pre t. summary a = pre @ t \<and> (\<exists>kw \<in> set operatorKeywords. litMatch True kw t \<noteq> None))"
    unfolding relevant_def test_def exec_None_iff
    using matches_relevancePattern by blast
  also have "\<dots> \<longleftrightarrow> (\<exists>kw \<in> set operatorKeywords. \<exists>pre x suf.
      summary a = pre @ x @ suf \<and> sameIgnoringCase x kw)"
    using litMatch_ignoring_case by (metis not_Some_eq)
  finally show ?thesis by (simp add: containsIgnoringCase_def)
qed

text \<open>
  Claim C7. For every sequence of advisories the relevance filter returns the
  order-preserving subsequence of exactly those whose summary contains one of the operator
  keywords case-insensitively. A record with summary \<open>Starship static fire advisory\<close> is
  kept and one with summary \<open>Routine airspace notice\<close> is dropped. The filter is a
  function of its input alone.
\<close>

theorem relevance_filter:
  "filter relevant advisories =
     filter (\<lambda>a. \<exists>kw \<in> set operatorKeywords. containsIgnoringCase kw (summary a)) advisories
   \<and> subseq (filter relevant advisories) advisories
   \<and> relevant (a \<lparr> summary := ''Starship static fire advisory'' \<rparr>)
   \<and> \<not> relevant (a \<lparr> summary := ''Routine airspace notice'' \<rparr>)"
proof (intro conjI)
  show "filter relevant advisories =
     filter (\<lambda>a. \<exists>kw \<in> set operatorKeywords. containsIgnoringCase kw (summary a)) advisories"
    by (rule filter_cong) (simp_all add: relevant_iff)
  show "subseq (filter relevant advisories) advisories" by simp
  have "test True relevancePattern ''Starship static fire advisory''" by code_simp
  then show "relevant (a \<lparr> summary := ''Starship static fire advisory'' \<rparr>)"
    by (simp add: relevant_def)
  have "\<not> test True relevancePattern ''Routine airspace notice''" by code_simp
  then show "\<not> relevant (a \<lparr> summary := ''Routine airspace notice'' \<rparr>)"
    by (simp add: relevant_def)
qed

section \<open>Properties of the detail extractor\<close>

lemma parseLoop_occurrences:
  "parseLoop year s (acc, log) =
     (acc @ concat (map (windowOf year) (occurrences s)),
      log @ concat (map (failureOf year) (occurrences s)))"
proof (induction year s "(acc, log)" arbitrary: acc log rule: parseLoop.induct)
  case (1 year s parsedList log)
  show ?case
  proof (cases "exec False detailPattern s")
    case None
    then show ?thesis
      by (subst parseLoop.simps, subst (1 2) occurrences.simps) simp
  next
    case (Some x)
    obtain m0 caps rest where x: "x = (m0, caps, rest)" by (cases x)
    show ?thesis
    proof (cases "parseEntry year caps")
      case (Inl e)
      from "1.hyps"(1) [OF Some [unfolded x] refl refl Inl] Some x Inl show ?thesis
        by (subst parseLoop.simps, subst (1 2) occurrences.simps)
          (simp add: windowOf_def failureOf_def)
    next
      case (Inr d)
      from "1.hyps"(2) [OF Some [unfolded x] refl refl Inr] Some x Inr show ?thesis
        by (subst parseLoop.simps, subst (1 2) occurrences.simps)
          (simp add: windowOf_def failureOf_def)
    qed
  qed
qed

text \<open>
  Claim C2. For every details text and reference year the detail extractor returns a list
  and does not throw: an occurrence whose date-range or time-range parse fails is skipped
  (and reported on the console), and the output is exactly the sequence of the windows of
  the occurrences that parse, in source order. On a text with two well-formed windows
  around a malformed one (an unknown month) it returns the two well-formed windows, in
  source order.
\<close>

theorem parseDetails_skips_failures:
  "parseDetails txt year =
     (concat (map (windowOf year) (occurrences txt)),
      concat (map (failureOf year) (occurrences txt)))
   \<and> fst (parseDetails
       ''Primary Launch Day 3 JUN/4 JUN 1200Z-1800Z Backup Launch Day 5/6 FOO 1200Z-1800Z Reserve Launch Day (2) 7/8 JUN 1300Z-1900Z''
       (Num 2024)) =
     [\<lparr> type = ''Primary Launch Day'', startDate = ''2024-06-03'', endDate = ''2024-06-04'',
         startTime = ''12:00:00Z'', endTime = ''18:00:00Z'',
         startDatetime = ''2024-06-03T12:00:00Z'', endDatetime = ''2024-06-04T18:00:00Z'' \<rparr>,
      \<lparr> type = ''Reserve Launch Day (2)'', startDate = ''2024-06-07'', endDate = ''2024-06-08'',
         startTime = ''13:00:00Z'', endTime = ''19:00:00Z'',
         startDatetime = ''2024-06-07T13:00:00Z'', endDatetime = ''2024-06-08T19:00:00Z'' \<rparr>]"
proof
  show "parseDetails txt year =
     (concat (map (windowOf year) (occurrences txt)),
      concat (map (failureOf year) (occurrences txt)))"
    by (simp only: parseDetails_def parseLoop_occurrences append_Nil)
  show "fst (parseDetails
       ''Primary Launch Day 3 JUN/4 JUN 1200Z-1800Z Backup Launch Day 5/6 FOO 1200Z-1800Z Reserve Launch Day (2) 7/8 JUN 1300Z-1900Z''
       (Num 2024)) =
     [\<lparr> type = ''Primary Launch Day'', startDate = ''2024-06-03'', endDate = ''2024-06-04'',
         startTime = ''12:00:00Z'', endTime = ''18:00:00Z'',
         startDatetime = ''2024-06-03T12:00:00Z'', endDatetime = ''2024-06-04T18:00:00Z'' \<rparr>,
      \<lparr> type = ''Reserve Launch Day (2)'', startDate = ''2024-06-07'', endDate = ''2024-06-08'',
         startTime = ''13:00:00Z'', endTime = ''19:00:00Z'',
         startDatetime = ''2024-06-07T13:00:00Z'', endDatetime = ''2024-06-08T19:00:00Z'' \<rparr>]"
    by code_simp
qed

lemma litMatch_exact: "litMatch False l s = Some rest \<longleftrightarrow> s = l @ rest"
  by (induction l arbitrary: s) (case_tac [2] s, auto)

lemma matches_SeqD:
  "(c, r) \<in> set (matches ic (Seq a b) s) \<Longrightarrow>
     \<exists>c1 r1 c2. (c1, r1) \<in> set (matches ic a s) \<and> (c2, r) \<in> set (matches ic b r1)"
  by auto

lemma matches_GroupD:
  "(c, r) \<in> set (matches ic (Group a) s) \<Longrightarrow> \<exists>c'. (c', r) \<in> set (matches ic a s)"
  by auto

lemma matches_PlusD:
  "(c, r) \<in> set (matches ic (Plus cl) s) \<Longrightarrow> \<exists>k. r = drop k s"
  by auto

lemma matches_LitD:
  "(c, r) \<in> set (matches False (Lit l) s) \<Longrightarrow> s = l @ r"
  using litMatch_exact [of l s r] by (auto split: option.splits)

lemma detailPattern_shape:
  "\<exists>x y. detailPattern = Seq (Group (Seq (Plus WordC) (Seq (Lit '' Launch Day'') x))) y"
  by (simp add: detailPattern_def)

lemma matches_detailPattern_needs_label:
  assumes "(caps, rest) \<in> set (matches False detailPattern t)"
  shows "\<exists>pre suf. t = pre @ '' Launch Day'' @ suf"
proof -
  from detailPattern_shape obtain x y where
    eq: "detailPattern = Seq (Group (Seq (Plus WordC) (Seq (Lit '' Launch Day'') x))) y" by blast
  from assms have
    "(caps, rest) \<in> set (matches False (Seq (Group (Seq (Plus WordC) (Seq (Lit '' Launch Day'') x))) y) t)"
    by (simp only: eq)
  from matches_SeqD [OF this] obtain c1 r1 where
    "(c1, r1) \<in> set (matches False (Group (Seq (Plus WordC) (Seq (Lit '' Launch Day'') x))) t)"
    by blast
  from matches_GroupD [OF this] obtain c2 where
    "(c2, r1) \<in> set (matches False (Seq (Plus WordC) (Seq (Lit '' Launch Day'') x)) t)"
    by blast
  from matches_SeqD [OF this] obtain c3 r3 c4 where 3: "(c3, r3) \<in> set (matches False (Plus WordC) t)"
    and 4: "(c4, r1) \<in> set (matches False (Seq (Lit '' Launch Day'') x) r3)"
    by blast
  from matches_SeqD [OF 4] obtain c5 r5 where "(c5, r5) \<in> set (matches False (Lit '' Launch Day'') r3)"
    by blast
  then have "r3 = '' Launch Day'' @ r5" by (rule matches_LitD)
  moreover from matches_PlusD [OF 3] obtain k where "r3 = drop k t" by blast
  ultimately have "t = take k t @ '' Launch Day'' @ r5" by (metis append_take_drop_id)
  then show ?thesis by blast
qed

text \<open>
  How the pattern matches a text that consists of one occurrence: a run of class
  characters followed by a literal can only be matched whole, so every repetition of the
  pattern has one way to match.
\<close>

lemma takeWhile_run:
  "list_all P w \<Longrightarrow> \<not> P c \<Longrightarrow> takeWhile P (w @ c # t) = w"
  by (induction w) auto

lemma matches_Rep_run:
  "length w = n \<Longrightarrow> list_all (inClass cl) w \<Longrightarrow> \<not> inClass cl c \<Longrightarrow>
     matches ic (Rep n cl) (w @ c # t) = [([], c # t)]"
  by (simp add: takeWhile_run)

lemma matches_Plus_run:
  "list_all (inClass cl) w \<Longrightarrow> \<not> inClass cl c \<Longrightarrow>
     matches ic (Plus cl) (w @ c # t) =
       map (\<lambda>k. ([], drop k w @ c # t)) (rev [1 ..< Suc (length w)])"
  by (auto simp: takeWhile_run)

lemma litMatch_mismatch: "p \<noteq> x \<Longrightarrow> litMatch False (p # l) (x # xs) = None"
  by simp

lemma concat_map_empty: "(\<And>x. x \<in> set xs \<Longrightarrow> f x = []) \<Longrightarrow> concat (map f xs) = []"
  by (induction xs) auto

lemma drop_in_run:
  assumes "list_all P w" and "0 < k" and "k < length w"
  shows "\<exists>x xs. drop k w = x # xs \<and> P x"
proof -
  from assms(3) have "drop k w = w ! k # drop (Suc k) w" by (simp add: Cons_nth_drop_Suc)
  moreover from assms(1,3) have "P (w ! k)" by (simp add: list_all_length)
  ultimately show ?thesis by blast
qed

text \<open>A run followed by a literal: only the whole run lets the literal match.\<close>

lemma seq_run_literal:
  assumes "w \<noteq> []" and "list_all (inClass cl) w" and "\<not> inClass cl c" and "\<not> inClass cl p"
  shows "concat (map (\<lambda>(c1, r1). map (\<lambda>(c2, r2). (c1 @ c2, r2))
                           (matches False (Seq (Lit (p # l)) R) r1))
                (map (\<lambda>k. (g k, drop k w @ c # t)) (rev [1 ..< Suc (length w)]))) =
         map (\<lambda>(c2, r2). (g (length w) @ c2, r2)) (matches False (Seq (Lit (p # l)) R) (c # t))"
proof -
  from assms(1) have ks: "rev [1 ..< Suc (length w)] = length w # rev [1 ..< length w]"
    by (cases w) simp_all
  have "matches False (Seq (Lit (p # l)) R) (drop k w @ c # t) = []"
    if "k \<in> set (rev [1 ..< length w])" for k
  proof -
    from that have "0 < k" "k < length w" by auto
    from drop_in_run [OF assms(2) this] obtain x xs where "drop k w = x # xs" "inClass cl x"
      by blast
    with assms(4) have "litMatch False (p # l) (drop k w @ c # t) = None" by auto
    then show ?thesis by simp
  qed
  then have "concat (map (\<lambda>k. map (\<lambda>(c2, r2). (g k @ c2, r2))
        (matches False (Seq (Lit (p # l)) R) (drop k w @ c # t))) (rev [1 ..< length w])) = []"
    by (intro concat_map_empty) (simp del: matches.simps)
  with assms(1) show ?thesis by (simp add: comp_def Suc_le_eq del: matches.simps)
qed

lemma matches_run_literal:
  assumes "w \<noteq> []" and "list_all (inClass cl) w" and "\<not> inClass cl c" and "\<not> inClass cl p"
  shows "matches False (Seq (Plus cl) (Seq (Lit (p # l)) R)) (w @ c # t) =
           matches False (Seq (Lit (p # l)) R) (c # t)"
proof -
  have "matches False (Seq (Plus cl) (Seq (Lit (p # l)) R)) (w @ c # t) =
      concat (map (\<lambda>(c1, r1). map (\<lambda>(c2, r2). (c1 @ c2, r2))
                           (matches False (Seq (Lit (p # l)) R) r1))
                (map (\<lambda>k. ([], drop k w @ c # t)) (rev [1 ..< Suc (length w)])))"
    by (simp only: matches.simps(4) [of False "Plus cl"] matches_Plus_run [OF assms(2,3)])
  also have "\<dots> = map (\<lambda>(c2, r2). ([] @ c2, r2)) (matches False (Seq (Lit (p # l)) R) (c # t))"
    by (rule seq_run_literal [OF assms])
  finally show ?thesis by (simp del: matches.simps)
qed

lemma matches_Seq_Lit:
  "matches False (Seq (Lit l) R) s =
     (case litMatch False l s of None \<Rightarrow> [] | Some r \<Rightarrow> matches False R r)"
  by (simp split: option.splits)

lemma matches_Seq_Rep_run:
  assumes "length w = n" and "list_all (inClass cl) w" and "\<not> inClass cl c"
  shows "matches False (Seq (Rep n cl) R) (w @ c # t) = matches False R (c # t)"
  by (simp add: matches_Rep_run [OF assms] del: matches.simps(3))

lemma not_digit: "\<not> isDigit (CHR ''Z'')" "\<not> isDigit (CHR ''/'')" "\<not> isDigit (CHR '' '')"
  by (simp_all add: isDigit_def)

lemma not_word: "\<not> isWord (CHR '' '')" "\<not> isWord (CHR ''/'')"
  by (simp_all add: isWord_def isDigit_def lowerLetters_def upperLetters_def)

lemma inClass_eq: "inClass DigitC = isDigit" "inClass WordC = isWord"
  by (rule ext, simp)+

lemma matches_timePattern:
  assumes "length t1 = 4" and "list_all isDigit t1" and "length t2 = 4" and "list_all isDigit t2"
  shows "matches False timePattern (t1 @ ''Z-'' @ t2 @ ''Z'') = [([t1 @ ''Z-'' @ t2 @ ''Z''], [])]"
proof -
  have 1: "matches False (Seq (Rep 4 DigitC) R) (t1 @ CHR ''Z'' # r) = matches False R (CHR ''Z'' # r)"
    for R r using assms(1,2) by (intro matches_Seq_Rep_run) (simp_all add: not_digit inClass_eq)
  have 2: "matches False (Rep 4 DigitC) (t2 @ ''Z'') = [([], ''Z'')]"
    using assms(3,4) matches_Rep_run [where w = t2 and n = 4 and cl = DigitC and c = "CHR ''Z''" and t = "[]"
      and ic = False] by (simp add: not_digit inClass_eq)
  have "matches False (seqs [Rep 4 DigitC, Lit ''Z-'', Rep 4 DigitC, Lit ''Z''])
          (t1 @ CHR ''Z'' # CHR ''-'' # t2 @ ''Z'') = [([], [])]"
    unfolding seqs.simps 1 matches_Seq_Lit
    by (simp add: 2 del: matches.simps(3))
  then show ?thesis by (simp add: timePattern_def del: matches.simps(3,4) seqs.simps)
qed

lemma detailPattern_parts:
  "detailPattern =
     Seq (Group labelPattern)
       (Seq (Lit '' '')
          (Seq (Group (Alt shortDatePattern longDatePattern)) (Seq (Lit '' '') timePattern)))"
  by (simp add: detailPattern_def labelPattern_def shortDatePattern_def longDatePattern_def
      timePattern_def)

lemma matches_Seq_Lit1: "matches False (Seq (Lit [c]) R) (c # s) = matches False R s"
  by (simp add: matches_Seq_Lit del: matches.simps)

lemma matches_Seq_Lit_mismatch:
  "c \<noteq> x \<Longrightarrow> matches False (Seq (Lit (c # l)) R) (x # s) = []"
  by (simp add: matches_Seq_Lit del: matches.simps)

lemma group_run_then_literal:
  assumes a: "matches False a (x @ w @ c # t) =
                map (\<lambda>k. ([], drop k w @ c # t)) (rev [1 ..< Suc (length w)])"
    and w: "w \<noteq> []" "list_all (inClass cl) w" "\<not> inClass cl c" "\<not> inClass cl p"
  shows "matches False (Seq (Group a) (Seq (Lit (p # l)) R)) (x @ w @ c # t) =
           map (\<lambda>(c2, r2). ((x @ w) # c2, r2)) (matches False (Seq (Lit (p # l)) R) (c # t))"
proof -
  let ?s = "x @ w @ c # t"
  let ?g = "\<lambda>k. [take (length ?s - length (drop k w @ c # t)) ?s]"
  have "matches False (Group a) ?s =
      map (\<lambda>k. (?g k, drop k w @ c # t)) (rev [1 ..< Suc (length w)])"
    by (simp only: matches.simps(7) a map_map comp_def prod.case)
  then have "matches False (Seq (Group a) (Seq (Lit (p # l)) R)) ?s =
      concat (map (\<lambda>(c1, r1). map (\<lambda>(c2, r2). (c1 @ c2, r2))
                           (matches False (Seq (Lit (p # l)) R) r1))
                (map (\<lambda>k. (?g k, drop k w @ c # t)) (rev [1 ..< Suc (length w)])))"
    by (simp only: matches.simps(4) [of False "Group a"])
  also have "\<dots> = map (\<lambda>(c2, r2). (?g (length w) @ c2, r2))
      (matches False (Seq (Lit (p # l)) R) (c # t))"
    by (rule seq_run_literal [OF w])
  also have "?g (length w) = [x @ w]" by simp
  finally show ?thesis by (simp del: matches.simps)
qed

lemma matches_shortDate:
  assumes "d1 \<noteq> []" "list_all isDigit d1" "d2 \<noteq> []" "list_all isDigit d2" "list_all isWord m"
  shows "matches False shortDatePattern (d1 @ CHR ''/'' # d2 @ CHR '' '' # m @ CHR '' '' # r) =
           map (\<lambda>k. ([], drop k m @ CHR '' '' # r)) (rev [1 ..< Suc (length m)])"
proof -
  have 1: "matches False (Seq (Plus DigitC) (Seq (Lit ''/'') R)) (d1 @ CHR ''/'' # u) =
      matches False (Seq (Lit ''/'') R) (CHR ''/'' # u)" for R u
    using assms(1,2) by (intro matches_run_literal) (simp_all add: inClass_eq not_digit)
  have 2: "matches False (Seq (Plus DigitC) (Seq (Lit '' '') R)) (d2 @ CHR '' '' # u) =
      matches False (Seq (Lit '' '') R) (CHR '' '' # u)" for R u
    using assms(3,4) by (intro matches_run_literal) (simp_all add: inClass_eq not_digit)
  have 3: "matches False (Plus WordC) (m @ CHR '' '' # r) =
      map (\<lambda>k. ([], drop k m @ CHR '' '' # r)) (rev [1 ..< Suc (length m)])"
    using assms(5) by (intro matches_Plus_run) (simp_all add: inClass_eq not_word)
  show ?thesis
    unfolding shortDatePattern_def seqs.simps
    by (simp only: 1 2 3 matches_Seq_Lit1)
qed

lemma matches_longDate:
  assumes "d1 \<noteq> []" "list_all isDigit d1" "d2 \<noteq> []" "list_all isDigit d2"
    and "m1 \<noteq> []" "list_all isWord m1" "list_all isWord m2"
  shows "matches False longDatePattern
           (d1 @ CHR '' '' # m1 @ CHR ''/'' # d2 @ CHR '' '' # m2 @ CHR '' '' # r) =
           map (\<lambda>k. ([], drop k m2 @ CHR '' '' # r)) (rev [1 ..< Suc (length m2)])"
proof -
  have 1: "matches False (Seq (Plus DigitC) (Seq (Lit '' '') R)) (d1 @ CHR '' '' # u) =
      matches False (Seq (Lit '' '') R) (CHR '' '' # u)" for R u
    using assms(1,2) by (intro matches_run_literal) (simp_all add: inClass_eq not_digit)
  have 2: "matches False (Seq (Plus WordC) (Seq (Lit ''/'') R)) (m1 @ CHR ''/'' # u) =
      matches False (Seq (Lit ''/'') R) (CHR ''/'' # u)" for R u
    using assms(5,6) by (intro matches_run_literal) (simp_all add: inClass_eq not_word)
  have 3: "matches False (Seq (Plus DigitC) (Seq (Lit '' '') R)) (d2 @ CHR '' '' # u) =
      matches False (Seq (Lit '' '') R) (CHR '' '' # u)" for R u
    using assms(3,4) by (intro matches_run_literal) (simp_all add: inClass_eq not_digit)
  have 4: "matches False (Plus WordC) (m2 @ CHR '' '' # r) =
      map (\<lambda>k. ([], drop k m2 @ CHR '' '' # r)) (rev [1 ..< Suc (length m2)])"
    using assms(7) by (intro matches_Plus_run) (simp_all add: inClass_eq not_word)
  show ?thesis
    unfolding longDatePattern_def seqs.simps
    by (simp only: 1 2 3 4 matches_Seq_Lit1)
qed

lemma matches_shortDate_mismatch:
  assumes "d1 \<noteq> []" "list_all isDigit d1"
  shows "matches False shortDatePattern (d1 @ CHR '' '' # u) = []"
proof -
  have "matches False (Seq (Plus DigitC) (Seq (Lit ''/'') R)) (d1 @ CHR '' '' # u) =
      matches False (Seq (Lit ''/'') R) (CHR '' '' # u)" for R
    using assms by (intro matches_run_literal) (simp_all add: inClass_eq not_digit)
  then show ?thesis
    unfolding shortDatePattern_def seqs.simps by (simp add: matches_Seq_Lit_mismatch del: matches.simps)
qed

lemma matches_longDate_mismatch:
  assumes "d1 \<noteq> []" "list_all isDigit d1"
  shows "matches False longDatePattern (d1 @ CHR ''/'' # u) = []"
proof -
  have "matches False (Seq (Plus DigitC) (Seq (Lit '' '') R)) (d1 @ CHR ''/'' # u) =
      matches False (Seq (Lit '' '') R) (CHR ''/'' # u)" for R
    using assms by (intro matches_run_literal) (simp_all add: inClass_eq not_digit)
  then show ?thesis
    unfolding longDatePattern_def seqs.simps by (simp add: matches_Seq_Lit_mismatch del: matches.simps)
qed

lemma matches_label:
  assumes "w \<noteq> []" and "list_all isWord w" and "x \<noteq> CHR ''(''"
  shows "matches False (Group labelPattern) (w @ '' Launch Day'' @ CHR '' '' # x # r) =
           [([w @ '' Launch Day''], CHR '' '' # x # r)]"
proof -
  have 1: "matches False (Seq (Plus WordC) (Seq (Lit '' Launch Day'') R)) (w @ CHR '' '' # u) =
      matches False (Seq (Lit '' Launch Day'') R) (CHR '' '' # u)" for R u
    using assms(1,2) by (intro matches_run_literal) (simp_all add: inClass_eq not_word)
  have 2: "matches False (Seq (Lit '' ('') R) (CHR '' '' # x # r) = []" for R
    using assms(3) by (auto simp add: matches_Seq_Lit simp del: matches.simps)
  have 3: "matches False (Seq (Lit '' Launch Day'') R) (CHR '' '' # ''Launch Day'' @ u) =
      matches False R u" for R u
    by (simp add: matches_Seq_Lit del: matches.simps)
  have "matches False labelPattern (w @ CHR '' '' # ''Launch Day'' @ CHR '' '' # x # r) =
      [([], CHR '' '' # x # r)]"
    unfolding labelPattern_def seqs.simps 1 3
    by (simp only: matches.simps(6) 2 append_Nil)
  then show ?thesis by (simp del: matches.simps(2,4))
qed

lemma matches_dates_then_time:
  assumes alt: "matches False (Alt shortDatePattern longDatePattern) (x @ m @ CHR '' '' # tm) =
                  map (\<lambda>k. ([], drop k m @ CHR '' '' # tm)) (rev [1 ..< Suc (length m)])"
    and m: "m \<noteq> []" "list_all isWord m"
    and tm: "matches False timePattern tm = [([tm], [])]"
  shows "matches False
           (Seq (Group (Alt shortDatePattern longDatePattern)) (Seq (Lit '' '') timePattern))
           (x @ m @ CHR '' '' # tm) = [([x @ m, tm], [])]"
proof -
  have "matches False
           (Seq (Group (Alt shortDatePattern longDatePattern)) (Seq (Lit '' '') timePattern))
           (x @ m @ CHR '' '' # tm) =
        map (\<lambda>(c2, r2). ((x @ m) # c2, r2))
          (matches False (Seq (Lit '' '') timePattern) (CHR '' '' # tm))"
    using alt m by (intro group_run_then_literal [where cl = WordC])
      (simp_all add: inClass_eq not_word)
  then show ?thesis by (simp only: matches_Seq_Lit1 tm list.map prod.case)
qed

lemma matches_detailPattern:
  assumes lab: "matches False (Group labelPattern) (lab @ CHR '' '' # dt @ CHR '' '' # tm) =
                  [([lab], CHR '' '' # dt @ CHR '' '' # tm)]"
    and dates: "matches False
           (Seq (Group (Alt shortDatePattern longDatePattern)) (Seq (Lit '' '') timePattern))
           (dt @ CHR '' '' # tm) = [([dt, tm], [])]"
  shows "matches False detailPattern (lab @ CHR '' '' # dt @ CHR '' '' # tm) =
           [([lab, dt, tm], [])]"
  unfolding detailPattern_parts matches.simps(4) [of False "Group labelPattern"] lab
  by (simp add: matches_Seq_Lit1 dates del: matches.simps)

lemma matches_at_end: "matches False detailPattern [] = []"
proof (rule ccontr)
  assume "matches False detailPattern [] \<noteq> []"
  then obtain c r where "(c, r) \<in> set (matches False detailPattern [])"
    by (cases "matches False detailPattern []") auto
  from matches_length [OF this] show False by (simp add: minLen_detailPattern)
qed

lemma parseDetails_single:
  assumes "matches False detailPattern (x # xs) = [(caps, [])]"
  shows "parseDetails (x # xs) year =
           (case parseEntry year caps of
              Inl e \<Rightarrow> ([], [DetailError (x # xs) e])
            | Inr d \<Rightarrow> ([d], []))"
proof -
  have e: "exec False detailPattern (x # xs) = Some (x # xs, caps, [])"
    using assms by simp
  have n: "exec False detailPattern [] = None" by (simp add: matches_at_end)
  show ?thesis
    unfolding parseDetails_def
    by (subst parseLoop.simps, simp only: e option.case prod.case)
       (cases "parseEntry year caps"; simp only: sum.case; subst parseLoop.simps;
        simp only: n option.case append_Nil)
qed

lemma parseDatePart_two_months:
  assumes "d1 \<noteq> []" and "list_all isDigit d1" and "d2 \<noteq> []" and "list_all isDigit d2"
    and "getMonth m1 = Inr n1" and "getMonth m2 = Inr n2"
  shows "parseDatePart (d1 @ '' '' @ m1 @ ''/'' @ d2 @ '' '' @ m2) year =
           Inr (isoDate year n1 d1, isoDate year n2 d2)"
  unfolding parseDatePart_def split_date_two_months [OF assms] isoDate_def
  by (simp add: parseDateSides_two_months [OF assms])

lemma parseDatePart_one_month:
  assumes "d1 \<noteq> []" and "list_all isDigit d1" and "d2 \<noteq> []" and "list_all isDigit d2"
    and "getMonth m2 = Inr n2"
  shows "parseDatePart (d1 @ ''/'' @ d2 @ '' '' @ m2) year =
           Inr (isoDate year n2 d1, isoDate year n2 d2)"
  unfolding parseDatePart_def split_date_one_month [OF assms] isoDate_def
  by (simp add: parseDateSides_one_month [OF assms])

lemma parseTimePart_zulu:
  assumes "length t1 = 4" and "list_all isDigit t1" and "length t2 = 4" and "list_all isDigit t2"
  shows "parseTimePart (t1 @ ''Z-'' @ t2 @ ''Z'') = Inr (isoTime t1, isoTime t2)"
proof -
  have nd: "\<not> isDigit (CHR ''-'')" by (simp add: isDigit_def)
  have a: "CHR ''-'' \<notin> set (t1 @ ''Z'')" using assms(2) nd by (auto simp: list_all_iff)
  have b: "CHR ''-'' \<notin> set (t2 @ ''Z'')" using assms(4) nd by (auto simp: list_all_iff)
  have "split (CHR ''-'') ((t1 @ ''Z'') @ CHR ''-'' # (t2 @ ''Z'')) = [t1 @ ''Z'', t2 @ ''Z'']"
    using a b by (rule split_two)
  then have s: "split (CHR ''-'') (t1 @ ''Z-'' @ t2 @ ''Z'') = [t1 @ ''Z'', t2 @ ''Z'']" by simp
  have "slice (t1 @ ''Z'') 0 2 = take 2 t1" "slice (t1 @ ''Z'') 2 4 = drop 2 t1"
       "slice (t2 @ ''Z'') 0 2 = take 2 t2" "slice (t2 @ ''Z'') 2 4 = drop 2 t2"
    using assms(1,3) by (simp_all add: slice_def)
  with s show ?thesis by (simp add: parseTimePart_def timeString_def isoTime_def)
qed

lemma getMonth_word:
  assumes "getMonth m = Inr n"
  shows "m \<noteq> []" and "list_all isWord m"
proof -
  from getMonth_letters [OF assms] show "m \<noteq> []" by simp
  from getMonth_letters [OF assms] show "list_all isWord m"
    by (auto simp: list_all_iff isWord_def)
qed

lemma digit_not_paren: "isDigit x \<Longrightarrow> x \<noteq> CHR ''(''"
  by (auto simp: isDigit_def)

lemma parseEntry_window:
  assumes "parseDatePart dt year = Inr dates" and "parseTimePart tm = Inr tms"
  shows "parseEntry year [lab, dt, tm] = Inr (windowFrom lab dates tms)"
  using assms by (cases dates; cases tms) (simp add: parseEntry_def windowFrom_def numeral_2_eq_2)

lemma parseDetails_one_occurrence:
  assumes w: "w \<noteq> []" "list_all isWord w"
    and d1: "d1 \<noteq> []" "list_all isDigit d1"
    and alt: "matches False (Alt shortDatePattern longDatePattern)
                ((d1 @ x) @ m @ CHR '' '' # t1 @ ''Z-'' @ t2 @ ''Z'') =
              map (\<lambda>k. ([], drop k m @ CHR '' '' # t1 @ ''Z-'' @ t2 @ ''Z''))
                (rev [1 ..< Suc (length m)])"
    and m: "getMonth m = Inr n"
    and t: "length t1 = 4" "list_all isDigit t1" "length t2 = 4" "list_all isDigit t2"
    and dates: "parseDatePart (d1 @ x @ m) year = Inr dates"
  shows "parseDetails (w @ '' Launch Day '' @ d1 @ x @ m @ '' '' @ t1 @ ''Z-'' @ t2 @ ''Z'') year =
           ([windowFrom (w @ '' Launch Day'') dates (isoTime t1, isoTime t2)], [])"
proof -
  let ?tm = "t1 @ ''Z-'' @ t2 @ ''Z''" and ?dt = "d1 @ x @ m" and ?lab = "w @ '' Launch Day''"
  let ?T = "?lab @ CHR '' '' # ?dt @ CHR '' '' # ?tm"
  from d1 obtain y ys where y: "d1 = y # ys" "isDigit y" by (cases d1) auto
  have lab: "matches False (Group labelPattern) ?T = [([?lab], CHR '' '' # ?dt @ CHR '' '' # ?tm)]"
    using matches_label [OF w digit_not_paren [OF y(2)], of "ys @ x @ m @ CHR '' '' # ?tm"] y(1)
    by simp
  have "matches False
           (Seq (Group (Alt shortDatePattern longDatePattern)) (Seq (Lit '' '') timePattern))
           ((d1 @ x) @ m @ CHR '' '' # ?tm) = [([(d1 @ x) @ m, ?tm], [])]"
    using alt getMonth_word [OF m] matches_timePattern [OF t]
    by (rule matches_dates_then_time)
  then have dt: "matches False
           (Seq (Group (Alt shortDatePattern longDatePattern)) (Seq (Lit '' '') timePattern))
           (?dt @ CHR '' '' # ?tm) = [([?dt, ?tm], [])]"
    by simp
  have all: "matches False detailPattern ?T = [([?lab, ?dt, ?tm], [])]"
    using lab dt by (rule matches_detailPattern)
  from w(1) obtain c cs where T: "?T = c # cs" by (cases w) auto
  have "parseEntry year [?lab, ?dt, ?tm] = Inr (windowFrom ?lab dates (isoTime t1, isoTime t2))"
    using dates parseTimePart_zulu [OF t] by (rule parseEntry_window)
  with parseDetails_single [of c cs "[?lab, ?dt, ?tm]" year] all T
  have "parseDetails ?T year = ([windowFrom ?lab dates (isoTime t1, isoTime t2)], [])"
    by simp
  then show ?thesis by simp
qed

lemma parseDetails_without_label:
  assumes no: "\<not> (\<exists>pre suf. dtext = pre @ '' Launch Day'' @ suf)"
  shows "parseDetails dtext year = ([], [])"
proof -
  have "matches False detailPattern t = []" if "dtext = pre @ t" for pre t
  proof (rule ccontr)
    assume "matches False detailPattern t \<noteq> []"
    then obtain caps rest where "(caps, rest) \<in> set (matches False detailPattern t)"
      by (cases "matches False detailPattern t") auto
    from matches_detailPattern_needs_label [OF this] obtain p suf
      where "t = p @ '' Launch Day'' @ suf" by blast
    with that have "dtext = (pre @ p) @ '' Launch Day'' @ suf" by simp
    with no show False by blast
  qed
  then have "exec False detailPattern dtext = None" by (simp add: exec_None_iff)
  then show ?thesis
    unfolding parseDetails_def by (subst parseLoop.simps) simp
qed

lemma parseDetails_long_date:
  assumes w: "w \<noteq> []" "list_all isWord w"
    and d: "d1 \<noteq> []" "list_all isDigit d1" "d2 \<noteq> []" "list_all isDigit d2"
    and m1: "getMonth m1 = Inr n1" and m2: "getMonth m2 = Inr n2"
    and t: "length t1 = 4" "list_all isDigit t1" "length t2 = 4" "list_all isDigit t2"
  shows "parseDetails
           (w @ '' Launch Day '' @ d1 @ '' '' @ m1 @ ''/'' @ d2 @ '' '' @ m2 @ '' '' @ t1 @ ''Z-'' @ t2 @ ''Z'')
           year =
         ([windowFrom (w @ '' Launch Day'') (isoDate year n1 d1, isoDate year n2 d2)
             (isoTime t1, isoTime t2)], [])"
proof -
  let ?x = "'' '' @ m1 @ ''/'' @ d2 @ '' ''" and ?tm = "t1 @ ''Z-'' @ t2 @ ''Z''"
  have "matches False shortDatePattern ((d1 @ ?x) @ m2 @ CHR '' '' # ?tm) = []"
    using matches_shortDate_mismatch [OF d(1,2)] by simp
  moreover have "matches False longDatePattern ((d1 @ ?x) @ m2 @ CHR '' '' # ?tm) =
      map (\<lambda>k. ([], drop k m2 @ CHR '' '' # ?tm)) (rev [1 ..< Suc (length m2)])"
    using matches_longDate [OF d getMonth_word [OF m1] getMonth_word(2) [OF m2], of ?tm] by simp
  ultimately have alt: "matches False (Alt shortDatePattern longDatePattern)
      ((d1 @ ?x) @ m2 @ CHR '' '' # ?tm) =
      map (\<lambda>k. ([], drop k m2 @ CHR '' '' # ?tm)) (rev [1 ..< Suc (length m2)])"
    by (simp only: matches.simps(5) append_Nil)
  have dates: "parseDatePart (d1 @ ?x @ m2) year = Inr (isoDate year n1 d1, isoDate year n2 d2)"
    using parseDatePart_two_months [OF d m1 m2, of year] by simp
  from parseDetails_one_occurrence [OF w d(1,2) alt m2 t dates] show ?thesis by simp
qed

lemma parseDetails_short_date:
  assumes w: "w \<noteq> []" "list_all isWord w"
    and d: "d1 \<noteq> []" "list_all isDigit d1" "d2 \<noteq> []" "list_all isDigit d2"
    and m2: "getMonth m2 = Inr n2"
    and t: "length t1 = 4" "list_all isDigit t1" "length t2 = 4" "list_all isDigit t2"
  shows "parseDetails
           (w @ '' Launch Day '' @ d1 @ ''/'' @ d2 @ '' '' @ m2 @ '' '' @ t1 @ ''Z-'' @ t2 @ ''Z'')
           year =
         ([windowFrom (w @ '' Launch Day'') (isoDate year n2 d1, isoDate year n2 d2)
             (isoTime t1, isoTime t2)], [])"
proof -
  let ?x = "''/'' @ d2 @ '' ''" and ?tm = "t1 @ ''Z-'' @ t2 @ ''Z''"
  have "matches False longDatePattern ((d1 @ ?x) @ m2 @ CHR '' '' # ?tm) = []"
    using matches_longDate_mismatch [OF d(1,2)] by simp
  moreover have "matches False shortDatePattern ((d1 @ ?x) @ m2 @ CHR '' '' # ?tm) =
      map (\<lambda>k. ([], drop k m2 @ CHR '' '' # ?tm)) (rev [1 ..< Suc (length m2)])"
    using matches_shortDate [OF d getMonth_word(2) [OF m2], of ?tm] by simp
  ultimately have alt: "matches False (Alt shortDatePattern longDatePattern)
      ((d1 @ ?x) @ m2 @ CHR '' '' # ?tm) =
      map (\<lambda>k. ([], drop k m2 @ CHR '' '' # ?tm)) (rev [1 ..< Suc (length m2)])"
    by (simp only: matches.simps(5) append_Nil2)
  have dates: "parseDatePart (d1 @ ?x @ m2) year = Inr (isoDate year n2 d1, isoDate year n2 d2)"
    using parseDatePart_one_month [OF d m2, of year] by simp
  from parseDetails_one_occurrence [OF w d(1,2) alt m2 t dates] show ?thesis by simp
qed

text \<open>
  Claim C8, as amended. In the pattern the words \<open>Launch Day\<close> after the label's word are
  not optional. A details text that does not contain \<open>Launch Day\<close> after a space yields no
  window (and no console line), whatever fragments it holds. A details text that consists
  of a word, \<open>Launch Day\<close>, a well-formed date-range fragment of either shape and a
  time-range fragment \<open>HHMMZ-HHMMZ\<close> yields exactly one window, whose label is the word
  followed by \<open>Launch Day\<close>.
\<close>

theorem parseDetails_launch_day_label:
  "(\<not> (\<exists>pre suf. dtext = pre @ '' Launch Day'' @ suf) \<longrightarrow> parseDetails dtext year = ([], []))
   \<and> (w \<noteq> [] \<and> list_all isWord w \<and> d1 \<noteq> [] \<and> list_all isDigit d1
        \<and> d2 \<noteq> [] \<and> list_all isDigit d2 \<and> getMonth m1 = Inr n1 \<and> getMonth m2 = Inr n2
        \<and> length t1 = 4 \<and> list_all isDigit t1 \<and> length t2 = 4 \<and> list_all isDigit t2 \<longrightarrow>
      parseDetails
        (w @ '' Launch Day '' @ d1 @ '' '' @ m1 @ ''/'' @ d2 @ '' '' @ m2 @ '' '' @ t1 @ ''Z-'' @ t2 @ ''Z'')
        year =
      ([windowFrom (w @ '' Launch Day'') (isoDate year n1 d1, isoDate year n2 d2)
          (isoTime t1, isoTime t2)], [])
      \<and> parseDetails
        (w @ '' Launch Day '' @ d1 @ ''/'' @ d2 @ '' '' @ m2 @ '' '' @ t1 @ ''Z-'' @ t2 @ ''Z'')
        year =
      ([windowFrom (w @ '' Launch Day'') (isoDate year n2 d1, isoDate year n2 d2)
          (isoTime t1, isoTime t2)], []))"
proof (intro conjI impI)
  assume "\<not> (\<exists>pre suf. dtext = pre @ '' Launch Day'' @ suf)"
  then show "parseDetails dtext year = ([], [])" by (rule parseDetails_without_label)
next
  assume h: "w \<noteq> [] \<and> list_all isWord w \<and> d1 \<noteq> [] \<and> list_all isDigit d1
        \<and> d2 \<noteq> [] \<and> list_all isDigit d2 \<and> getMonth m1 = Inr n1 \<and> getMonth m2 = Inr n2
        \<and> length t1 = 4 \<and> list_all isDigit t1 \<and> length t2 = 4 \<and> list_all isDigit t2"
  then show "parseDetails
        (w @ '' Launch Day '' @ d1 @ '' '' @ m1 @ ''/'' @ d2 @ '' '' @ m2 @ '' '' @ t1 @ ''Z-'' @ t2 @ ''Z'')
        year =
      ([windowFrom (w @ '' Launch Day'') (isoDate year n1 d1, isoDate year n2 d2)
          (isoTime t1, isoTime t2)], [])"
    by (intro parseDetails_long_date) simp_all
  from h show "parseDetails
        (w @ '' Launch Day '' @ d1 @ ''/'' @ d2 @ '' '' @ m2 @ '' '' @ t1 @ ''Z-'' @ t2 @ ''Z'')
        year =
      ([windowFrom (w @ '' Launch Day'') (isoDate year n2 d1, isoDate year n2 d2)
          (isoTime t1, isoTime t2)], [])"
    by (intro parseDetails_short_date) simp_all
qed

text \<open>
  \<open>Fire 3 JUN/4 JUN 1200Z-1800Z\<close> yields nothing; \<open>Fire Launch Day 3 JUN/4 JUN 1200Z-1800Z\<close>
  and \<open>Fire Launch Day 3/4 JUN 1200Z-1800Z\<close> each yield one window labelled
  \<open>Fire Launch Day\<close>.
\<close>

theorem parseDetails_launch_day_label_witness:
  "parseDetails ''Fire 3 JUN/4 JUN 1200Z-1800Z'' NaN = ([], [])
   \<and> parseDetails ''Fire Launch Day 3 JUN/4 JUN 1200Z-1800Z'' (Num 2024) =
       ([\<lparr> type = ''Fire Launch Day'', startDate = ''2024-06-03'', endDate = ''2024-06-04'',
          startTime = ''12:00:00Z'', endTime = ''18:00:00Z'',
          startDatetime = ''2024-06-03T12:00:00Z'', endDatetime = ''2024-06-04T18:00:00Z'' \<rparr>], [])
   \<and> parseDetails ''Fire Launch Day 3/4 JUN 1200Z-1800Z'' (Num 2024) =
       ([\<lparr> type = ''Fire Launch Day'', startDate = ''2024-06-03'', endDate = ''2024-06-04'',
          startTime = ''12:00:00Z'', endTime = ''18:00:00Z'',
          startDatetime = ''2024-06-03T12:00:00Z'', endDatetime = ''2024-06-04T18:00:00Z'' \<rparr>], [])"
proof -
  have no: "\<not> (\<exists>pre suf. ''Fire 3 JUN/4 JUN 1200Z-1800Z'' = pre @ '' Launch Day'' @ suf)"
  proof
    assume "\<exists>pre suf. ''Fire 3 JUN/4 JUN 1200Z-1800Z'' = pre @ '' Launch Day'' @ suf"
    then obtain pre suf where "''Fire 3 JUN/4 JUN 1200Z-1800Z'' = pre @ '' Launch Day'' @ suf"
      by blast
    then have "CHR ''L'' \<in> set ''Fire 3 JUN/4 JUN 1200Z-1800Z''"
      by (simp only: set_append) simp
    then show False by simp
  qed
  have g: "getMonth ''JUN'' = Inr 6" by code_simp
  have c: "list_all isWord ''Fire''" "list_all isDigit ''3''" "list_all isDigit ''4''"
    "list_all isDigit ''1200''" "list_all isDigit ''1800''" by code_simp+
  have v: "windowFrom ''Fire Launch Day'' (isoDate (Num 2024) 6 ''3'', isoDate (Num 2024) 6 ''4'')
      (isoTime ''1200'', isoTime ''1800'') =
      \<lparr> type = ''Fire Launch Day'', startDate = ''2024-06-03'', endDate = ''2024-06-04'',
          startTime = ''12:00:00Z'', endTime = ''18:00:00Z'',
          startDatetime = ''2024-06-03T12:00:00Z'', endDatetime = ''2024-06-04T18:00:00Z'' \<rparr>"
    by code_simp
  from parseDetails_launch_day_label [where dtext = "''Fire 3 JUN/4 JUN 1200Z-1800Z''" and year = NaN] no
  have 1: "parseDetails ''Fire 3 JUN/4 JUN 1200Z-1800Z'' NaN = ([], [])" by blast
  from parseDetails_launch_day_label [where w = "''Fire''" and ?d1.0 = "''3''" and ?d2.0 = "''4''"
      and ?m1.0 = "''JUN''" and ?n1.0 = 6 and ?m2.0 = "''JUN''" and ?n2.0 = 6
      and ?t1.0 = "''1200''" and ?t2.0 = "''1800''" and year = "Num 2024"] g c v
  have "parseDetails ''Fire Launch Day 3 JUN/4 JUN 1200Z-1800Z'' (Num 2024) =
       ([\<lparr> type = ''Fire Launch Day'', startDate = ''2024-06-03'', endDate = ''2024-06-04'',
          startTime = ''12:00:00Z'', endTime = ''18:00:00Z'',
          startDatetime = ''2024-06-03T12:00:00Z'', endDatetime = ''2024-06-04T18:00:00Z'' \<rparr>], [])
     \<and> parseDetails ''Fire Launch Day 3/4 JUN 1200Z-1800Z'' (Num 2024) =
       ([\<lparr> type = ''Fire Launch Day'', startDate = ''2024-06-03'', endDate = ''2024-06-04'',
          startTime = ''12:00:00Z'', endTime = ''18:00:00Z'',
          startDatetime = ''2024-06-03T12:00:00Z'', endDatetime = ''2024-06-04T18:00:00Z'' \<rparr>], [])"
    by simp
  with 1 show ?thesis by simp
qed

text \<open>
  The claim as stated fails: a single-word label without \<open>Launch Day\<close>, followed by a
  well-formed date-range fragment and time-range fragment, yields no window.
\<close>

theorem parseDetails_label_without_launch_day_counterexample:
  "fst (parseDetails ''Fire 3 JUN/4 JUN 1200Z-1800Z'' (Num 2024)) = []"
  by code_simp

section \<open>Properties of the ingestion pipeline\<close>

lemma advisoryid_enrich: "advisoryid (enrich u a) = advisoryid a"
  by (simp add: enrich_def)

lemma processAdvisory_store:
  "fst (processAdvisory storeReplaceOne u a st) = upsert (enrich u a) (fst st)"
  by (simp add: processAdvisory_def storeReplaceOne_def upsert_def enrich_def Let_def)

lemma fold_processAdvisory_store:
  "fst (fold (processAdvisory storeReplaceOne u) as st) = fold (\<lambda>a. upsert (enrich u a)) as (fst st)"
  by (induction as arbitrary: st) (simp_all add: processAdvisory_store)

lemma ingest_fold:
  "ingest u batch coll = fold upsert (map (enrich u) (filter relevant batch)) coll"
  by (simp add: ingest_def fetchAndProcessAdvisories_def fold_processAdvisory_store fold_map comp_def)

lemma keys_replaceFirst:
  "advisoryid d = k \<Longrightarrow> map advisoryid (replaceFirst k d coll) = map advisoryid coll"
  by (induction coll) auto

lemma keys_upsert:
  "map advisoryid (upsert d coll) =
     (if advisoryid d \<in> set (map advisoryid coll) then map advisoryid coll
      else map advisoryid coll @ [advisoryid d])"
  by (simp add: upsert_def keys_replaceFirst)

lemma distinct_upsert:
  "distinct (map advisoryid coll) \<Longrightarrow> distinct (map advisoryid (upsert d coll))"
  by (simp add: keys_upsert)

lemma stored_absent: "k \<notin> advisoryid ` set coll \<Longrightarrow> stored coll k = []"
  by (induction coll) (auto simp: stored_def)

lemma stored_replaceFirst:
  "distinct (map advisoryid coll) \<Longrightarrow> advisoryid d \<in> advisoryid ` set coll \<Longrightarrow>
     stored (replaceFirst (advisoryid d) d coll) k =
       (if k = advisoryid d then [d] else stored coll k)"
proof (induction coll)
  case Nil
  then show ?case by simp
next
  case (Cons x xs)
  show ?case
  proof (cases "advisoryid x = advisoryid d")
    case True
    with Cons.prems have "advisoryid d \<notin> advisoryid ` set xs" by auto
    then have "stored xs (advisoryid d) = []" by (rule stored_absent)
    with True show ?thesis by (auto simp: stored_def)
  next
    case False
    with Cons show ?thesis by (auto simp: stored_def)
  qed
qed

lemma stored_upsert:
  "distinct (map advisoryid coll) \<Longrightarrow>
     stored (upsert d coll) k = (if k = advisoryid d then [d] else stored coll k)"
proof (cases "advisoryid d \<in> advisoryid ` set coll")
  case True
  assume "distinct (map advisoryid coll)"
  from stored_replaceFirst [OF this True] True show ?thesis by (simp add: upsert_def)
next
  case False
  then have "stored coll (advisoryid d) = []" by (rule stored_absent)
  with False show ?thesis by (auto simp: upsert_def stored_def)
qed

lemma distinct_fold_upsert:
  "distinct (map advisoryid coll) \<Longrightarrow> distinct (map advisoryid (fold upsert ds coll))"
  by (induction ds arbitrary: coll) (simp_all add: distinct_upsert)

lemma stored_fold_upsert:
  "distinct (map advisoryid coll) \<Longrightarrow>
     stored (fold upsert ds coll) k =
       (case List.find (\<lambda>d. advisoryid d = k) (rev ds) of
          Some d \<Rightarrow> [d] | None \<Rightarrow> stored coll k)"
proof (induction ds rule: rev_induct)
  case Nil
  then show ?case by simp
next
  case (snoc d ds)
  from snoc.prems have "distinct (map advisoryid (fold upsert ds coll))"
    by (rule distinct_fold_upsert)
  from stored_upsert [OF this, of d k] snoc show ?case by auto
qed

lemma keys_fold_upsert_present:
  "\<forall>d \<in> set ds. advisoryid d \<in> set (map advisoryid coll) \<Longrightarrow>
     map advisoryid (fold upsert ds coll) = map advisoryid coll"
proof (induction ds arbitrary: coll)
  case Nil
  then show ?case by simp
next
  case (Cons d ds)
  from Cons.prems have k: "map advisoryid (upsert d coll) = map advisoryid coll"
    by (simp add: keys_upsert)
  with Cons.prems have "\<forall>e \<in> set ds. advisoryid e \<in> set (map advisoryid (upsert d coll))"
    by simp
  from Cons.IH [OF this] k show ?case by simp
qed

lemma keys_upsert_covers:
  "advisoryid d \<in> advisoryid ` set (upsert d coll)"
  "advisoryid ` set coll \<subseteq> advisoryid ` set (upsert d coll)"
  using keys_upsert [of d coll, THEN arg_cong, of set] by (auto split: if_splits)

lemma keys_fold_upsert_covers:
  "advisoryid ` set ds \<union> advisoryid ` set coll \<subseteq> advisoryid ` set (fold upsert ds coll)"
proof (induction ds arbitrary: coll)
  case Nil
  then show ?case by simp
next
  case (Cons d ds)
  from Cons.IH [of "upsert d coll"] keys_upsert_covers [where d = d and coll = coll]
  have "advisoryid ` set ds \<subseteq> advisoryid ` set (fold upsert ds (upsert d coll))"
    and "advisoryid d \<in> advisoryid ` set (fold upsert ds (upsert d coll))"
    and "advisoryid ` set coll \<subseteq> advisoryid ` set (fold upsert ds (upsert d coll))"
    by blast+
  then show ?case by simp
qed

lemma collection_eqI:
  assumes "distinct (map advisoryid xs)" and "map advisoryid xs = map advisoryid ys"
    and "\<And>k. stored xs k = stored ys k"
  shows "xs = ys"
  using assms
proof (induction xs arbitrary: ys)
  case Nil
  then show ?case by simp
next
  case (Cons x xs)
  from Cons.prems(2) obtain y ys' where ys: "ys = y # ys'"
    and k: "advisoryid y = advisoryid x" and ks: "map advisoryid xs = map advisoryid ys'"
    by (cases ys) auto
  from Cons.prems(1) have nx: "advisoryid x \<notin> advisoryid ` set xs" and dx: "distinct (map advisoryid xs)"
    by auto
  from nx ks have ny: "advisoryid x \<notin> advisoryid ` set ys'"
    by (metis set_map)
  from stored_absent [OF nx] stored_absent [OF ny] Cons.prems(3) [of "advisoryid x"] ys k
  have xy: "x = y" by (simp add: stored_def)
  have "stored xs j = stored ys' j" for j
  proof (cases "j = advisoryid x")
    case True
    with stored_absent [OF nx] stored_absent [OF ny] show ?thesis by simp
  next
    case False
    with Cons.prems(3) [of j] ys k show ?thesis by (simp add: stored_def)
  qed
  from Cons.IH [OF dx ks this] xy ys show ?case by simp
qed

lemma find_rev_map_enrich:
  "List.find (\<lambda>d. advisoryid d = k) (rev (map (enrich u) as)) =
     map_option (enrich u) (List.find (\<lambda>a. advisoryid a = k) (rev as))"
  by (induction as rule: rev_induct) (simp_all add: advisoryid_enrich)

lemma stored_ingest:
  assumes "distinct (map advisoryid coll)"
  shows "stored (ingest u batch coll) k =
           (case latest batch k of Some a \<Rightarrow> [enrich u a] | None \<Rightarrow> stored coll k)"
  unfolding ingest_fold stored_fold_upsert [OF assms] find_rev_map_enrich latest_def
  by (simp split: option.splits)

lemma distinct_ingest:
  "distinct (map advisoryid coll) \<Longrightarrow> distinct (map advisoryid (ingest u batch coll))"
  unfolding ingest_fold by (rule distinct_fold_upsert)

lemma ingest_twice:
  assumes "distinct (map advisoryid coll)"
  shows "ingest u batch (ingest u batch coll) = ingest u batch coll"
proof (rule collection_eqI)
  let ?ds = "map (enrich u) (filter relevant batch)"
  note d1 = distinct_ingest [OF assms, of u batch]
  from d1 show "distinct (map advisoryid (ingest u batch (ingest u batch coll)))"
    by (rule distinct_ingest)
  have "\<forall>d \<in> set ?ds. advisoryid d \<in> set (map advisoryid (fold upsert ?ds coll))"
    using keys_fold_upsert_covers [of ?ds coll] by auto
  then show "map advisoryid (ingest u batch (ingest u batch coll)) =
      map advisoryid (ingest u batch coll)"
    unfolding ingest_fold by (rule keys_fold_upsert_present)
  fix k
  show "stored (ingest u batch (ingest u batch coll)) k = stored (ingest u batch coll) k"
    unfolding stored_ingest [OF d1] stored_ingest [OF assms]
    by (simp split: option.splits)
qed

text \<open>
  Claim C9. The store step is an identity-keyed wholesale replacement. Starting from a
  collection with one record per identity, a run leaves one record per identity; for every
  identity of the batch the stored record is exactly the enrichment of the latest relevant
  advisory with that identity, whatever was stored before (no merge of fields); records of
  other identities are untouched; and a second run on the same batch changes nothing.
\<close>

theorem ingest_idempotent:
  assumes "distinct (map advisoryid coll)"
  shows "ingest u batch (ingest u batch coll) = ingest u batch coll
       \<and> distinct (map advisoryid (ingest u batch coll))
       \<and> (\<forall>k a. latest batch k = Some a \<longrightarrow> stored (ingest u batch coll) k = [enrich u a])
       \<and> (\<forall>k. latest batch k = None \<longrightarrow> stored (ingest u batch coll) k = stored coll k)"
  using ingest_twice [OF assms] distinct_ingest [OF assms] stored_ingest [OF assms]
  by simp

text \<open>Ingesting the example advisory twice into an empty collection.\<close>

theorem ingest_idempotent_witness:
  "ingest (\<lambda>t. Num 2024) [exampleAdvisory] (ingest (\<lambda>t. Num 2024) [exampleAdvisory] []) =
     ingest (\<lambda>t. Num 2024) [exampleAdvisory] []
   \<and> stored (ingest (\<lambda>t. Num 2024) [exampleAdvisory] []) 42 =
       [enrich (\<lambda>t. Num 2024) exampleAdvisory]"
proof -
  have "relevant exampleAdvisory" by code_simp
  then have "latest [exampleAdvisory] 42 = Some exampleAdvisory"
    by (simp add: latest_def exampleAdvisory_def)
  with ingest_idempotent [of "[]" "\<lambda>t. Num 2024" "[exampleAdvisory]"] show ?thesis by simp
qed

section \<open>Properties of the endpoints\<close>

text \<open>
  Claim C1, as amended. When the upstream fetch fails, nothing is upserted: the pipeline
  returns the collection as it was and reports the failure on the console. The failure is
  caught inside the pipeline, so the write trigger still answers with status 200 and the
  message \<open>Advisories processed\<close>, and the server is unchanged.
\<close>

theorem handler_fetch_failure:
  assumes "fetched env = Inl e" and "mongoUri env = Some uri" and "uri \<noteq> []"
    and "connectFailure env = None" and "httpMethod req = ''POST''"
  shows "handler replaceOne utcFullYear env req srv =
           Inr (\<lparr> status = 200, body = Message ''Advisories processed'' \<rparr>, srv, [FetchingError e])
       \<and> fetchAndProcessAdvisories replaceOne utcFullYear (fetched env) coll = (coll, [FetchingError e])"
  using assms by (simp add: handler_def fetchAndProcessAdvisories_def undefinedUri_def)

theorem handler_fetch_failure_witness:
  "handler storeReplaceOne (\<lambda>t. NaN)
     \<lparr> mongoUri = Some ''mongodb://store'', connectFailure = None,
       fetched = Inl (External ''fetch failed'') \<rparr>
     \<lparr> httpMethod = ''POST'' \<rparr> (\<lambda>name. [exampleAdvisory]) =
   Inr (\<lparr> status = 200, body = Message ''Advisories processed'' \<rparr>, (\<lambda>name. [exampleAdvisory]),
        [FetchingError (External ''fetch failed'')])"
  using handler_fetch_failure [of
      "\<lparr> mongoUri = Some ''mongodb://store'', connectFailure = None,
         fetched = Inl (External ''fetch failed'') \<rparr>"
      "External ''fetch failed''" "''mongodb://store''" "\<lparr> httpMethod = ''POST'' \<rparr>"
      storeReplaceOne "\<lambda>t. NaN" "\<lambda>name. [exampleAdvisory]"]
  by simp

text \<open>
  The claim as stated fails: with a failing fetch the write trigger does not answer with
  a server error but with the success message.
\<close>

theorem handler_fetch_failure_counterexample:
  "\<exists>srv' log.
     handler storeReplaceOne (\<lambda>t. NaN)
       \<lparr> mongoUri = Some ''mongodb://store'', connectFailure = None,
         fetched = Inl (External ''fetch failed'') \<rparr>
       \<lparr> httpMethod = ''POST'' \<rparr> (\<lambda>name. []) =
     Inr (\<lparr> status = 200, body = Message ''Advisories processed'' \<rparr>, srv', log)"
  by (simp add: handler_def fetchAndProcessAdvisories_def undefinedUri_def)

text \<open>
  Claim C10. The write trigger works on the collection \<open>starship_advisories\<close> of the
  database \<open>advisories_db\<close> and the read endpoint lists the collection \<open>faa_advisories\<close>
  of the database \<open>danielmillar\<close>. The two are different, an invocation of the write
  trigger changes no other collection than its own, and so the answer of the read endpoint
  is the same after the invocation as before: no record upserted by it is returned by the
  read endpoint on that account.
\<close>

theorem handler_leaves_read_collection:
  assumes "handler replaceOne utcFullYear env req srv = Inr (resp, srv', log)"
  shows "writeCollection \<noteq> readCollection
       \<and> (\<forall>name. name \<noteq> writeCollection \<longrightarrow> srv' name = srv name)
       \<and> readHandler findAll env' req' srv' = readHandler findAll env' req' srv"
proof -
  have ne: "writeCollection \<noteq> readCollection"
    by (simp add: writeCollection_def readCollection_def)
  from assms have frame: "srv' name = srv name" if "name \<noteq> writeCollection" for name
    using that
    by (auto simp: handler_def writeCollection_def Let_def split: if_splits option.splits)
  from ne frame [of readCollection]
  have eq: "srv' (''danielmillar'', ''faa_advisories'') = srv (''danielmillar'', ''faa_advisories'')"
    by (simp add: readCollection_def)
  have "readHandler findAll env' req' srv' = readHandler findAll env' req' srv"
    unfolding readHandler_def eq by (rule refl)
  with ne frame show ?thesis by simp
qed

lemma parseDetails_exampleAdvisory:
  "parseDetails (details exampleAdvisory) (Num 2024) =
     ([\<lparr> type = ''Fire Launch Day'', startDate = ''2024-06-03'', endDate = ''2024-06-04'',
         startTime = ''12:00:00Z'', endTime = ''18:00:00Z'',
         startDatetime = ''2024-06-03T12:00:00Z'', endDatetime = ''2024-06-04T18:00:00Z'' \<rparr>], [])"
  by code_simp

lemma relevant_exampleAdvisory: "relevant exampleAdvisory"
  by code_simp

text \<open>
  After the example advisory is ingested into an empty server, the write collection holds
  its enrichment and the read endpoint still returns no advisory.
\<close>

theorem handler_leaves_read_collection_witness:
  "\<exists>resp srv' log.
     handler storeReplaceOne (\<lambda>t. Num 2024)
       \<lparr> mongoUri = Some ''mongodb://store'', connectFailure = None,
         fetched = Inr \<lparr> rows = [exampleAdvisory] \<rparr> \<rparr>
       \<lparr> httpMethod = ''POST'' \<rparr> (\<lambda>name. []) = Inr (resp, srv', log)
     \<and> srv' writeCollection = [enrich (\<lambda>t. Num 2024) exampleAdvisory]
     \<and> readHandler Inr
         \<lparr> mongoUri = Some ''mongodb://store'', connectFailure = None,
           fetched = Inl (External ''unused'') \<rparr>
         \<lparr> httpMethod = ''GET'' \<rparr> srv' =
       \<lparr> status = 200, body = Advisories [] \<rparr>"
proof -
  let ?env = "\<lparr> mongoUri = Some ''mongodb://store'', connectFailure = None,
         fetched = Inr \<lparr> rows = [exampleAdvisory] \<rparr> \<rparr>"
  let ?renv = "\<lparr> mongoUri = Some ''mongodb://store'', connectFailure = None,
           fetched = Inl (External ''unused'') \<rparr>"
  let ?srv' = "(\<lambda>name. []) (writeCollection := [enrich (\<lambda>t. Num 2024) exampleAdvisory])"
  have h: "handler storeReplaceOne (\<lambda>t. Num 2024) ?env \<lparr> httpMethod = ''POST'' \<rparr> (\<lambda>name. []) =
      Inr (\<lparr> status = 200, body = Message ''Advisories processed'' \<rparr>, ?srv', [Inserted 42])"
    using relevant_exampleAdvisory parseDetails_exampleAdvisory
    by (simp add: handler_def fetchAndProcessAdvisories_def processAdvisory_def
        storeReplaceOne_def enrich_def writeCollection_def undefinedUri_def Let_def)
       (simp add: exampleAdvisory_def)
  from handler_leaves_read_collection [OF h, of Inr ?renv "\<lparr> httpMethod = ''GET'' \<rparr>"]
  have "readHandler Inr ?renv \<lparr> httpMethod = ''GET'' \<rparr> ?srv' =
        readHandler Inr ?renv \<lparr> httpMethod = ''GET'' \<rparr> (\<lambda>name. [])" by simp
  also have "\<dots> = \<lparr> status = 200, body = Advisories [] \<rparr>"
    by (simp add: readHandler_def undefinedUri_def)
  finally have "readHandler Inr ?renv \<lparr> httpMethod = ''GET'' \<rparr> ?srv' =
      \<lparr> status = 200, body = Advisories [] \<rparr>" .
  with h show ?thesis by simp
qed

end
